theory Spec2Isabelle
  imports
    Main
    "HOL-Library.Char_ord"
    "HOL-Library.List_Lexorder"
    "HOL-Library.Multiset"
begin

section \<open>Course records\<close>

text \<open>
  A C++ \<open>std::string\<close> is a sequence of bytes: \<^typ>\<open>string\<close>. Its \<open>operator<\<close> compares
  byte by byte as unsigned values and puts a proper prefix first; that is the order
  the two imported order theories give to \<^typ>\<open>string\<close>.

  \<open>struct Course\<close> (ProjectTwo.cpp, 225-330).
\<close>

record Course =
  number :: string
  title :: string
  prerequisites :: "string list"

text \<open>The default-constructed \<open>Course\<close>: three empty members.\<close>

definition Course_new :: Course where
  "Course_new = \<lparr>number = [], title = [], prerequisites = []\<rparr>"

text \<open>\<open>Course::clear\<close>.\<close>

definition Course_clear :: "Course \<Rightarrow> Course" where
  "Course_clear c = c\<lparr>number := [], title := [], prerequisites := []\<rparr>"

text \<open>\<open>Course::empty\<close>.\<close>

definition Course_empty :: "Course \<Rightarrow> bool" where
  "Course_empty c = (if number c = [] then True else False)"

text \<open>\<open>Course::display\<close>: the text written to \<open>cout\<close>, \<open>endl\<close> as a line feed.\<close>

definition display :: "Course \<Rightarrow> string" where
  "display c = number c @ '', '' @ title c @ [CHR 0x0A]"

section \<open>The binary search tree\<close>

text \<open>
  \<open>struct Node\<close> behind a \<open>Node *\<close>: \<open>Null\<close> is \<open>nullptr\<close>, \<open>Node c l r\<close> a node
  holding the course \<open>c\<close> with children \<open>l\<close> and \<open>r\<close>. The tree owns its nodes and no
  node is shared, so the pointer structure is the term structure.
\<close>

datatype Node = Null | Node Course Node Node

text \<open>
  \<open>BinarySearchTree::addNode\<close> (393-417), returning the updated subtree. The source
  dereferences \<open>node\<close> at once; \<open>Insert\<close> calls it on a non-null root only, and it
  recurses into non-null children only, so the first equation is never reached.
\<close>

fun addNode :: "Node \<Rightarrow> Course \<Rightarrow> Node" where
  "addNode Null crs = Null"
| "addNode (Node c l r) crs =
     (if number crs < number c then
        (if l = Null then Node c (Node crs Null Null) r
         else Node c (addNode l crs) r)
      else
        (if r = Null then Node c l (Node crs Null Null)
         else Node c l (addNode r crs)))"

text \<open>
  \<open>BinarySearchTree::inOrder\<close> (425-436): the courses in the order in which the
  traversal calls \<open>display\<close> on them.
\<close>

fun inOrder :: "Node \<Rightarrow> Course list" where
  "inOrder Null = []"
| "inOrder (Node c l r) = inOrder l @ c # inOrder r"

text \<open>\<open>BinarySearchTree::InOrder\<close>: what the traversal prints.\<close>

definition InOrder :: "Node \<Rightarrow> string" where
  "InOrder root = concat (map display (inOrder root))"

text \<open>\<open>BinarySearchTree::drain\<close> (459-462).\<close>

definition drain :: "Node \<Rightarrow> Node" where
  "drain root = Null"

text \<open>\<open>BinarySearchTree::Insert\<close> (475-483).\<close>

definition Insert :: "Node \<Rightarrow> Course \<Rightarrow> Node" where
  "Insert root crs = (if root = Null then Node crs Null Null else addNode root crs)"

text \<open>
  \<open>BinarySearchTree::Search\<close> (489-509): the \<open>while\<close> loop walks down from the root,
  so it is a recursion on the tree.
\<close>

fun Search :: "Node \<Rightarrow> string \<Rightarrow> Course" where
  "Search Null courseNumber = Course_new"
| "Search (Node c l r) courseNumber =
     (if number c = courseNumber then c
      else if courseNumber < number c then Search l courseNumber
      else Search r courseNumber)"

text \<open>\<open>BinarySearchTree::Exists\<close> (515-521).\<close>

definition Exists :: "Node \<Rightarrow> string \<Rightarrow> bool" where
  "Exists root courseNumber = (number (Search root courseNumber) \<noteq> [])"

section \<open>The prerequisite hash table\<close>

text \<open>
  \<open>struct Prerequisite\<close> (72-127) is a union of \<open>char courseId[8]\<close> and
  \<open>u_int64_t num\<close>. The model keeps the eight bytes; \<open>num\<close> reads them as an unsigned
  64-bit integer in little-endian byte order (x86-64, AArch64), the first byte being
  the least significant one.
\<close>

type_synonym Prerequisite = "char list"

definition num :: "Prerequisite \<Rightarrow> nat" where
  "num p = foldr (\<lambda>c n. of_char c + 256 * n) p 0"

text \<open>The constructor and \<open>Prerequisite::clear\<close> set \<open>num = 0\<close>: eight zero bytes.\<close>

definition Prerequisite_new :: Prerequisite where
  "Prerequisite_new =
     [CHR 0x00, CHR 0x00, CHR 0x00, CHR 0x00, CHR 0x00, CHR 0x00, CHR 0x00, CHR 0x00]"

text \<open>
  \<open>Prerequisite::load\<close>: \<open>id.copy(courseId, 7)\<close> writes the first \<open>min 7 (size id)\<close>
  characters of \<open>id\<close> over the start of the array and leaves the other bytes alone.
\<close>

definition load :: "Prerequisite \<Rightarrow> string \<Rightarrow> Prerequisite" where
  "load p ident = take 7 ident @ drop (min 7 (length ident)) p"

text \<open>\<open>Prerequisite::hash\<close>: \<open>(num + idx) % cap\<close> on \<open>u_int64_t\<close>.\<close>

definition hash :: "Prerequisite \<Rightarrow> nat \<Rightarrow> nat \<Rightarrow> nat" where
  "hash p idx cap = ((num p + idx) mod 2 ^ 64) mod cap"

text \<open>
  \<open>Prerequisite::getString\<close>: a \<open>std::string\<close> built from the array as a C string,
  so it stops before the first zero byte.
\<close>

definition getString :: "Prerequisite \<Rightarrow> string" where
  "getString p = takeWhile (\<lambda>c. c \<noteq> CHR 0x00) p"

text \<open>\<open>Prerequisite::empty\<close>.\<close>

definition Prerequisite_empty :: "Prerequisite \<Rightarrow> bool" where
  "Prerequisite_empty p = (if num p = 0 then True else False)"

text \<open>\<open>class PrereqHashTable\<close> (136-149); \<open>items\<close> is the allocated array.\<close>

record PrereqHashTable =
  len :: nat
  capacity :: nat
  items :: "Prerequisite list"

text \<open>\<open>PrereqHashTable::PrereqHashTable(u_int64_t cap)\<close> (165-170).\<close>

definition PrereqHashTable_new :: "nat \<Rightarrow> PrereqHashTable" where
  "PrereqHashTable_new cap = \<lparr>len = 0, capacity = cap, items = replicate cap Prerequisite_new\<rparr>"

text \<open>
  The \<open>for\<close> loop of \<open>PrereqHashTable::insert\<close> (209-222), from the index \<open>idx\<close> on.
  \<open>hash\<close> and \<open>idx\<close> are \<open>u_int32_t\<close> in the source: the hash is reduced modulo \<open>2^32\<close>,
  and \<open>idx\<close> stays below \<open>capacity\<close>, so with a capacity below \<open>2^32\<close> the increment never
  wraps.
\<close>

function insert_loop :: "PrereqHashTable \<Rightarrow> Prerequisite \<Rightarrow> nat \<Rightarrow> PrereqHashTable" where
  "insert_loop t prereq idx =
     (if idx < capacity t then
        (let h = hash prereq idx (capacity t) mod 2 ^ 32 in
         if num (items t ! h) = num prereq then t
         else if num (items t ! h) = 0 then t\<lparr>items := (items t)[h := prereq]\<rparr>
         else insert_loop t prereq (idx + 1))
      else t)"
  by pat_completeness auto
termination
  by (relation "measure (\<lambda>(t, prereq, idx). capacity t - idx)") auto

text \<open>\<open>PrereqHashTable::insert\<close> (200-223).\<close>

definition insert_table :: "PrereqHashTable \<Rightarrow> string \<Rightarrow> PrereqHashTable" where
  "insert_table t courseId = insert_loop t (load Prerequisite_new courseId) 0"

section \<open>Parsing a line\<close>

text \<open>
  A \<open>stringstream\<close> as far as \<open>Course::init\<close> uses it: the characters not yet read and
  the \<open>eofbit\<close>.
\<close>

type_synonym sstream = "string \<times> bool"

text \<open>
  \<open>getline(stream, str, delim)\<close>. With \<open>eofbit\<close> set the stream is not good, nothing is
  extracted and \<open>str\<close> keeps its value. Otherwise \<open>str\<close> is erased and filled up to the
  delimiter, which is extracted and dropped; reaching the end of the characters sets
  \<open>eofbit\<close>. The result is the stream and the string.
\<close>

definition getline :: "sstream \<Rightarrow> string \<Rightarrow> char \<Rightarrow> sstream \<times> string" where
  "getline stream str delim =
     (if snd stream then (stream, str)
      else
        (case dropWhile (\<lambda>c. c \<noteq> delim) (fst stream) of
           [] \<Rightarrow> (([], True), takeWhile (\<lambda>c. c \<noteq> delim) (fst stream))
         | d # rest \<Rightarrow> ((rest, False), takeWhile (\<lambda>c. c \<noteq> delim) (fst stream))))"

text \<open>
  What a load can throw. The source throws \<open>runtime_error\<close> with the messages
  "Error: invalid course number" (\<open>MalformedKey\<close>), "Error: empty course title"
  (\<open>EmptyTitle\<close>) and "Prerequisite course check failed" (\<open>UnresolvedPrerequisite\<close>, with
  the course that \<open>checkPrerequisites\<close> names on \<open>cerr\<close>).
\<close>

datatype error = MalformedKey | EmptyTitle | UnresolvedPrerequisite string

text \<open>
  The \<open>while (!stream.eof())\<close> loop of \<open>Course::init\<close> (269-287): the course and the
  table after it.
\<close>

function read_prerequisites ::
  "sstream \<Rightarrow> Course \<Rightarrow> PrereqHashTable \<Rightarrow> Course \<times> PrereqHashTable" where
  "read_prerequisites stream c table =
     (if \<not> snd stream then
        (let (stream', pr) = getline stream [] (CHR '','') in
         if (length pr = 1 \<and> pr ! 0 = CHR 0x0D) \<or> pr = []
         then read_prerequisites stream' c table
         else read_prerequisites stream'
                (c\<lparr>prerequisites := prerequisites c @ [pr]\<rparr>) (insert_table table pr))
      else (c, table))"
  by pat_completeness auto
termination
proof (relation "measure (\<lambda>(stream, c, table). length (fst stream) + (if snd stream then 0 else 1))")
  show "wf (measure (\<lambda>(stream, c, table). length (fst stream) + (if snd stream then 0 else 1)))"
    by simp
next
  fix stream :: sstream and c :: Course and table :: PrereqHashTable and x stream' pr
  assume "\<not> snd stream" and "x = getline stream [] CHR '',''" and "(stream', pr) = x"
  then have "length (fst stream') + (if snd stream' then 0 else 1) < length (fst stream) + 1"
    using length_dropWhile_le [of "\<lambda>c. c \<noteq> CHR '',''" "fst stream"]
    by (auto simp: getline_def split: list.splits)
  with \<open>\<not> snd stream\<close>
  show "((stream', c, table), (stream, c, table))
        \<in> measure (\<lambda>(stream, c, table). length (fst stream) + (if snd stream then 0 else 1))"
    by simp
  from \<open>\<not> snd stream\<close>
    \<open>length (fst stream') + (if snd stream' then 0 else 1) < length (fst stream) + 1\<close>
  show "((stream', c\<lparr>prerequisites := prerequisites c @ [pr]\<rparr>, insert_table table pr),
         (stream, c, table))
        \<in> measure (\<lambda>(stream, c, table). length (fst stream) + (if snd stream then 0 else 1))"
    by simp
qed

text \<open>
  \<open>Course::init\<close> (244-288) on the course \<open>c\<close>: the error thrown, if any, the course
  as the call leaves it, and the table.
\<close>

definition init :: "Course \<Rightarrow> string \<Rightarrow> PrereqHashTable \<Rightarrow> error option \<times> Course \<times> PrereqHashTable" where
  "init c line table =
     (let delim = CHR '','';
          stream = (line, False);
          (stream, str) = getline stream (number c) delim;
          c = c\<lparr>number := str\<rparr>
      in
        if length (number c) \<noteq> 7 then (Some MalformedKey, Course_clear c, table)
        else
          (let (stream, str) = getline stream (title c) delim;
               c = c\<lparr>title := str\<rparr>
           in
             if title c = [] then (Some EmptyTitle, Course_clear c, table)
             else (let (c, table) = read_prerequisites stream c table in (None, c, table))))"

section \<open>The driver\<close>

text \<open>
  \<open>class Driver\<close> (536-565): the tree and the table. The lines of the file at
  \<open>csvPath\<close> are an argument of \<open>loadCourses\<close>.
\<close>

record Driver =
  tree :: Node
  prereqTable :: PrereqHashTable

definition DEFAULT_PREREQUISITE_TABLE_SIZE :: nat where
  "DEFAULT_PREREQUISITE_TABLE_SIZE = 27"

text \<open>\<open>Driver::Driver\<close> (597-599); the tree member starts empty.\<close>

definition Driver_new :: Driver where
  "Driver_new = \<lparr>tree = Null, prereqTable = PrereqHashTable_new DEFAULT_PREREQUISITE_TABLE_SIZE\<rparr>"

text \<open>
  The \<open>for\<close> loop of \<open>Driver::checkPrerequisites\<close> (578-589), from the index \<open>i\<close> on:
  \<open>Some course\<close> when it returns \<open>false\<close> after naming \<open>course\<close> on \<open>cerr\<close>, \<open>None\<close> when it
  runs to the end and the function returns \<open>true\<close>.
\<close>

function checkPrerequisites_loop :: "Driver \<Rightarrow> nat \<Rightarrow> string option" where
  "checkPrerequisites_loop d i =
     (if i < capacity (prereqTable d) then
        (if \<not> Prerequisite_empty (items (prereqTable d) ! i) then
           (let course = getString (items (prereqTable d) ! i) in
            if \<not> Exists (tree d) course then Some course
            else checkPrerequisites_loop d (i + 1))
         else checkPrerequisites_loop d (i + 1))
      else None)"
  by pat_completeness auto
termination
  by (relation "measure (\<lambda>(d, i). capacity (prereqTable d) - i)") auto

text \<open>\<open>Driver::checkPrerequisites\<close> (570-592).\<close>

definition checkPrerequisites :: "Driver \<Rightarrow> string option" where
  "checkPrerequisites d = checkPrerequisites_loop d 0"

text \<open>
  The same loop once more, for what it asks of the tree: the arguments of its calls
  \<open>tree.Exists(course)\<close> (584), in the order in which it makes them. A call that
  returns \<open>false\<close> is the last one.
\<close>

function checkPrerequisites_queries_loop :: "Driver \<Rightarrow> nat \<Rightarrow> string list" where
  "checkPrerequisites_queries_loop d i =
     (if i < capacity (prereqTable d) then
        (if \<not> Prerequisite_empty (items (prereqTable d) ! i) then
           (let course = getString (items (prereqTable d) ! i) in
            if \<not> Exists (tree d) course then [course]
            else course # checkPrerequisites_queries_loop d (i + 1))
         else checkPrerequisites_queries_loop d (i + 1))
      else [])"
  by pat_completeness auto
termination
  by (relation "measure (\<lambda>(d, i). capacity (prereqTable d) - i)") auto

definition checkPrerequisites_queries :: "Driver \<Rightarrow> string list" where
  "checkPrerequisites_queries d = checkPrerequisites_queries_loop d 0"

text \<open>
  The \<open>while (getline(infs, line))\<close> loop of \<open>Driver::loadCourses\<close> (675-684) over the
  lines still to read: each line initialises a fresh \<open>Course\<close>, which is inserted into
  the tree; an exception from \<open>init\<close> ends the load.
\<close>

fun read_lines :: "Driver \<Rightarrow> nat \<Rightarrow> string list \<Rightarrow> error + Driver \<times> nat" where
  "read_lines d n [] = Inr (d, n)"
| "read_lines d n (line # lines) =
     (case init Course_new line (prereqTable d) of
        (Some e, c, table) \<Rightarrow> Inl e
      | (None, c, table) \<Rightarrow>
          read_lines \<lparr>tree = Insert (tree d) c, prereqTable = table\<rparr> (n + 1) lines)"

text \<open>
  \<open>Driver::loadCourses\<close> (662-690) on the lines of the file: the exception that ends
  it, or the driver after it and the number of courses it reports as loaded.
\<close>

definition loadCourses :: "Driver \<Rightarrow> string list \<Rightarrow> error + Driver \<times> nat" where
  "loadCourses d lines =
     (case read_lines (d\<lparr>tree := drain (tree d)\<rparr>) 0 lines of
        Inl e \<Rightarrow> Inl e
      | Inr (d', n) \<Rightarrow>
          (case checkPrerequisites d' of
             Some course \<Rightarrow> Inl (UnresolvedPrerequisite course)
           | None \<Rightarrow> Inr (d', n)))"

text \<open>\<open>Driver::printCourses\<close> (695-700): the text written to \<open>cout\<close>.\<close>

definition printCourses :: "Driver \<Rightarrow> string" where
  "printCourses d =
     [CHR 0x0A] @ ''  Here is a sample schedule:'' @ [CHR 0x0A] @ [CHR 0x0A] @ InOrder (tree d)"

text \<open>The tree after inserting the courses \<open>cs\<close>, first to last, into an empty tree.\<close>

definition build :: "Course list \<Rightarrow> Node" where
  "build cs = foldl Insert Null cs"

subsection \<open>The search-tree invariant\<close>

text \<open>
  Smaller keys to the left; keys that are greater \<^emph>\<open>or equal\<close> to the right, since
  \<open>addNode\<close> sends an equal key into its \<open>else\<close> branch.
\<close>

fun bst :: "Node \<Rightarrow> bool" where
  "bst Null = True"
| "bst (Node c l r) =
     (bst l \<and> bst r \<and>
      (\<forall>x \<in> set (inOrder l). number x < number c) \<and>
      (\<forall>x \<in> set (inOrder r). number c \<le> number x))"

section \<open>Invariants of the hash table\<close>

text \<open>
  The slot that the loop of \<open>insert\<close> looks at in its iteration \<open>idx\<close>: the hash, stored
  in a \<open>u_int32_t\<close>.
\<close>

definition slot :: "Prerequisite \<Rightarrow> nat \<Rightarrow> nat \<Rightarrow> nat" where
  "slot p cap idx = hash p idx cap mod 2 ^ 32"

text \<open>
  The array of a \<open>Prerequisite\<close> that went through \<open>load\<close> once: eight bytes, the last
  of them zero, since \<open>load\<close> writes seven bytes at most.
\<close>

definition valid_image :: "Prerequisite \<Rightarrow> bool" where
  "valid_image p = (length p = 8 \<and> p ! 7 = CHR 0x00)"

text \<open>
  A table as the constructor allocates it and \<open>insert\<close> keeps it: \<open>capacity\<close> slots,
  each one a valid array, and a capacity that the 32-bit loop counter can reach.
\<close>

definition wf_table :: "PrereqHashTable \<Rightarrow> bool" where
  "wf_table t =
     (length (items t) = capacity t \<and> capacity t < 2 ^ 32 \<and>
      (\<forall>p \<in> set (items t). valid_image p))"

text \<open>
  The iterations \<open>a\<close> up to \<open>b\<close> (excluded) of the loop of \<open>insert\<close> for \<open>p\<close> all go on:
  each of their slots is occupied by something else.
\<close>

definition passes :: "PrereqHashTable \<Rightarrow> Prerequisite \<Rightarrow> nat \<Rightarrow> nat \<Rightarrow> bool" where
  "passes t p a b =
     (\<forall>j. a \<le> j \<and> j < b \<longrightarrow>
        items t ! slot p (capacity t) j \<noteq> p \<and>
        items t ! slot p (capacity t) j \<noteq> Prerequisite_new)"

text \<open>
  Every occupied slot is reached by the probe sequence of its own content before that
  sequence meets an empty slot or another copy of the content. Open addressing without
  deletion keeps this, and it is what makes a second \<open>insert\<close> of a key find the first.
\<close>

definition probe_chain :: "PrereqHashTable \<Rightarrow> bool" where
  "probe_chain t =
     (\<forall>s < capacity t. items t ! s \<noteq> Prerequisite_new \<longrightarrow>
        (\<exists>i < capacity t. slot (items t ! s) (capacity t) i = s \<and> passes t (items t ! s) 0 i))"

definition table_inv :: "PrereqHashTable \<Rightarrow> bool" where
  "table_inv t = (wf_table t \<and> probe_chain t)"

text \<open>The occupied slots, in array order, and the strings the validation pass reads from them.\<close>

definition occupied :: "PrereqHashTable \<Rightarrow> Prerequisite list" where
  "occupied t = filter (\<lambda>p. \<not> Prerequisite_empty p) (items t)"

definition checked_keys :: "PrereqHashTable \<Rightarrow> string list" where
  "checked_keys t = map getString (occupied t)"

text \<open>A key is held by the table when an occupied slot holds its array.\<close>

definition holds :: "PrereqHashTable \<Rightarrow> string \<Rightarrow> bool" where
  "holds t courseId = (load Prerequisite_new courseId \<in> set (occupied t))"

text \<open>Registering a list of keys, first to last.\<close>

definition register_all :: "PrereqHashTable \<Rightarrow> string list \<Rightarrow> PrereqHashTable" where
  "register_all t ks = foldl insert_table t ks"

section \<open>What a load reads\<close>

text \<open>
  The prerequisite fields that the loop of \<open>Course::init\<close> keeps from a stream, and the
  outcome of \<open>Course::init\<close> on a fresh course as far as it depends on the line alone:
  the error and the course. Both are read off the functions themselves, run with a
  table without slots.
\<close>

definition prereq_fields :: "sstream \<Rightarrow> string list" where
  "prereq_fields stream =
     prerequisites (fst (read_prerequisites stream Course_new (PrereqHashTable_new 0)))"

definition parse :: "string \<Rightarrow> error option \<times> Course" where
  "parse line =
     (case init Course_new line (PrereqHashTable_new 0) of (e, c, table) \<Rightarrow> (e, c))"

text \<open>The courses of a list of lines, and the prerequisite keys they register, in order.\<close>

definition courses_of :: "string list \<Rightarrow> Course list" where
  "courses_of lines = map (\<lambda>line. snd (parse line)) lines"

definition registered_keys :: "string list \<Rightarrow> string list" where
  "registered_keys lines = concat (map prerequisites (courses_of lines))"

text \<open>
  The first two fields of a line, as \<open>Course::init\<close> cuts them at the commas; a line
  without a comma has an empty title field.
\<close>

definition key_field :: "string \<Rightarrow> string" where
  "key_field line = takeWhile (\<lambda>c. c \<noteq> CHR '','') line"

definition title_field :: "string \<Rightarrow> string" where
  "title_field line =
     takeWhile (\<lambda>c. c \<noteq> CHR '','') (drop 1 (dropWhile (\<lambda>c. c \<noteq> CHR '','') line))"

text \<open>
  The part of a list of keys that a pass over it asks about, when it stops at the first
  key for which the answer \<open>P\<close> is no.
\<close>

fun asked :: "('a \<Rightarrow> bool) \<Rightarrow> 'a list \<Rightarrow> 'a list" where
  "asked P [] = []"
| "asked P (x # xs) = (if P x then x # asked P xs else [x])"

text \<open>A small catalog, inserted out of key order.\<close>

definition catalog3 :: "Course list" where
  "catalog3 =
     [\<lparr>number = ''CSCI200'', title = ''Data Structures'', prerequisites = [''CSCI100'']\<rparr>,
      \<lparr>number = ''CSCI100'', title = ''Introduction'', prerequisites = []\<rparr>,
      \<lparr>number = ''MATH201'', title = ''Discrete Mathematics'', prerequisites = []\<rparr>]"

text \<open>Two different records under one key.\<close>

definition dup_a :: Course where
  "dup_a = \<lparr>number = ''CSCI100'', title = ''Introduction'', prerequisites = []\<rparr>"

definition dup_b :: Course where
  "dup_b = \<lparr>number = ''CSCI100'', title = ''Programming'', prerequisites = [''MATH100'']\<rparr>"

text \<open>A catalog file whose prerequisite is in the catalog.\<close>

definition catalog_lines :: "string list" where
  "catalog_lines = [''CSCI200,Data Structures,CSCI100'', ''CSCI100,Introduction'']"

text \<open>Twenty-seven course numbers, as many as the table of a driver has slots.\<close>

definition keys27 :: "string list" where
  "keys27 =
     [''CSCI100'', ''CSCI101'', ''CSCI102'', ''CSCI103'', ''CSCI104'', ''CSCI105'', ''CSCI106'',
      ''CSCI107'', ''CSCI108'', ''CSCI109'', ''CSCI110'', ''CSCI111'', ''CSCI112'', ''CSCI113'',
      ''CSCI114'', ''CSCI115'', ''CSCI116'', ''CSCI117'', ''CSCI118'', ''CSCI119'', ''CSCI120'',
      ''CSCI121'', ''CSCI122'', ''CSCI123'', ''CSCI124'', ''CSCI125'', ''CSCI126'']"

text \<open>
  Catalog files: one whose prerequisite field has eight characters, the first seven of
  them a course of the catalog; one with a prerequisite that is no course of the
  catalog; and the second catalog after an edit that removed its first line.
\<close>

definition catalog_long_key :: "string list" where
  "catalog_long_key = [''CSCI100,Introduction'', ''CSCI200,Data Structures,CSCI1000'']"

definition catalog_dangling :: "string list" where
  "catalog_dangling = [''CSCI100,Introduction'', ''CSCI200,Data Structures,CSCI100,CSCI300'']"

definition catalog_edited :: "string list" where
  "catalog_edited = [''CSCI200,Data Structures'']"

text \<open>A store with the one course \<open>CSCI100\<close>.\<close>

definition store_CSCI100 :: Node where
  "store_CSCI100 = build [\<lparr>number = ''CSCI100'', title = ''Introduction'', prerequisites = []\<rparr>]"

section \<open>Properties of the tree operations\<close>

lemma mset_inOrder_addNode:
  "t \<noteq> Null \<Longrightarrow> mset (inOrder (addNode t crs)) = add_mset crs (mset (inOrder t))"
  by (induction t) auto

lemma mset_inOrder_Insert:
  "mset (inOrder (Insert t crs)) = add_mset crs (mset (inOrder t))"
  by (simp add: Insert_def mset_inOrder_addNode)

lemma set_inOrder_addNode:
  "t \<noteq> Null \<Longrightarrow> set (inOrder (addNode t crs)) = insert crs (set (inOrder t))"
  using mset_inOrder_addNode [of t crs] by (metis set_mset_add_mset_insert set_mset_mset)

lemma bst_addNode: "bst t \<Longrightarrow> bst (addNode t crs)"
proof (induction t)
  case Null
  then show ?case by simp
next
  case (Node c l r)
  show ?case
  proof (cases "number crs < number c")
    case True
    with Node show ?thesis
      by (cases "l = Null") (auto simp: set_inOrder_addNode)
  next
    case False
    with Node show ?thesis
      by (cases "r = Null") (auto simp: set_inOrder_addNode)
  qed
qed

lemma bst_Insert: "bst t \<Longrightarrow> bst (Insert t crs)"
  by (simp add: Insert_def bst_addNode)

lemma build_snoc: "build (cs @ [crs]) = Insert (build cs) crs"
  by (simp add: build_def)

lemma bst_build: "bst (build cs)"
  by (induction cs rule: rev_induct) (simp_all add: build_def bst_Insert)

lemma mset_inOrder_build: "mset (inOrder (build cs)) = mset cs"
  by (induction cs rule: rev_induct) (simp_all add: build_def mset_inOrder_Insert)

lemma set_inOrder_build: "set (inOrder (build cs)) = set cs"
  using mset_inOrder_build [of cs] by (metis set_mset_mset)

lemma bst_sorted: "bst t \<Longrightarrow> sorted (map number (inOrder t))"
proof (induction t)
  case Null
  show ?case by simp
next
  case (Node c l r)
  have "number x \<le> number y" if "x \<in> set (inOrder l)" "y \<in> set (inOrder r)" for x y
  proof -
    from Node.prems that have "number x < number c" "number c \<le> number y" by auto
    then show ?thesis by simp
  qed
  with Node show ?case by (auto simp: sorted_append less_imp_le)
qed

subsection \<open>What a search returns\<close>

lemma find_snoc:
  "find P (xs @ [x]) = (case find P xs of Some y \<Rightarrow> Some y | None \<Rightarrow> if P x then Some x else None)"
  by (induction xs) auto

lemma Search_absent:
  "courseNumber \<notin> number ` set (inOrder t) \<Longrightarrow> Search t courseNumber = Course_new"
  by (induction t) auto

lemma Search_addNode_new:
  "t \<noteq> Null \<Longrightarrow> k \<notin> number ` set (inOrder t) \<Longrightarrow>
   Search (addNode t crs) k = (if number crs = k then crs else Course_new)"
  by (induction t) (auto simp: Search_absent image_Un)

lemma Search_addNode_old:
  "bst t \<Longrightarrow> k \<in> number ` set (inOrder t) \<Longrightarrow> Search (addNode t crs) k = Search t k"
proof (induction t)
  case Null
  then show ?case by simp
next
  case (Node c l r)
  show ?case
  proof (cases "number c = k")
    case True
    then show ?thesis by simp
  next
    case False
    show ?thesis
    proof (cases "k < number c")
      case True
      with Node.prems False have "k \<in> number ` set (inOrder l)" by fastforce
      with Node True False show ?thesis by auto
    next
      case nless: False
      with Node.prems False have "k \<in> number ` set (inOrder r)" by fastforce
      with Node nless False show ?thesis by auto
    qed
  qed
qed

text \<open>A search returns the first course inserted under the key, if there is one.\<close>

lemma Search_build:
  "Search (build cs) k =
     (case find (\<lambda>c. number c = k) cs of Some c \<Rightarrow> c | None \<Rightarrow> Course_new)"
proof (induction cs rule: rev_induct)
  case Nil
  show ?case by (simp add: build_def)
next
  case (snoc crs cs)
  show ?case
  proof (cases "k \<in> number ` set cs")
    case True
    then have "k \<in> number ` set (inOrder (build cs))" by (simp add: set_inOrder_build)
    moreover from this have "build cs \<noteq> Null" by auto
    ultimately have "Search (build (cs @ [crs])) k = Search (build cs) k"
      by (simp add: build_snoc Insert_def Search_addNode_old bst_build)
    moreover from True obtain c where "find (\<lambda>c. number c = k) cs = Some c"
      by (cases "find (\<lambda>c. number c = k) cs") (auto simp: find_None_iff)
    ultimately show ?thesis using snoc by (simp add: find_snoc)
  next
    case False
    then have absent: "k \<notin> number ` set (inOrder (build cs))" by (simp add: set_inOrder_build)
    from False have none: "find (\<lambda>c. number c = k) cs = None"
      by (auto simp: find_None_iff)
    have "Search (Insert (build cs) crs) k = (if number crs = k then crs else Course_new)"
      using absent by (cases "build cs = Null") (simp_all add: Insert_def Search_addNode_new)
    then show ?thesis using none by (simp add: build_snoc find_snoc)
  qed
qed

section \<open>Properties of the hash table\<close>

declare insert_loop.simps [simp del]
declare checkPrerequisites_loop.simps [simp del]
declare checkPrerequisites_queries_loop.simps [simp del]
declare read_prerequisites.simps [simp del]

lemma num_Nil: "num [] = 0" by (simp add: num_def)
lemma num_Cons: "num (c # p) = of_char c + 256 * num p" by (simp add: num_def)

lemma num_bound: "num p < 256 ^ length p"
proof (induction p)
  case Nil
  show ?case by (simp add: num_Nil)
next
  case (Cons c p)
  have "of_char c + 256 * num p < 256 * (num p + 1)" by simp
  also have "\<dots> \<le> 256 * 256 ^ length p"
    using Cons by (intro mult_le_mono2) simp
  finally show ?case by (simp add: num_Cons)
qed

lemma num_inj: "length p = length q \<Longrightarrow> num p = num q \<Longrightarrow> p = q"
proof (induction p q rule: list_induct2)
  case Nil
  show ?case by simp
next
  case (Cons c p d q)
  have c: "(of_char c :: nat) < 256" and d: "(of_char d :: nat) < 256" by simp_all
  from Cons.prems have e: "of_char c + 256 * num p = of_char d + 256 * num q"
    by (simp add: num_Cons)
  then have "(of_char c + 256 * num p) mod 256 = (of_char d + 256 * num q) mod 256" by simp
  with c d have cd: "(of_char c :: nat) = of_char d" by simp
  with e have "num p = num q" by simp
  with Cons.IH cd show ?case by simp
qed

lemma num_eq_iff: "length p = length q \<Longrightarrow> num p = num q \<longleftrightarrow> p = q"
  using num_inj by auto

lemma num_Prerequisite_new: "num Prerequisite_new = 0"
  by (simp add: Prerequisite_new_def num_Cons num_Nil)

lemma length_Prerequisite_new: "length Prerequisite_new = 8"
  by (simp add: Prerequisite_new_def)

lemma valid_Prerequisite_new: "valid_image Prerequisite_new"
  by (simp add: valid_image_def Prerequisite_new_def)

lemma num_zero_iff: "valid_image p \<Longrightarrow> num p = 0 \<longleftrightarrow> p = Prerequisite_new"
  using num_eq_iff [of p Prerequisite_new]
  by (simp add: valid_image_def num_Prerequisite_new length_Prerequisite_new)

lemma num_snoc: "num (p @ [c]) = num p + 256 ^ length p * of_char c"
  by (induction p) (simp_all add: num_Cons num_Nil algebra_simps)

lemma num_valid_bound: 
  assumes "valid_image p" shows "num p < 2 ^ 56"
proof -
  from assms have ne: "p \<noteq> []" by (auto simp: valid_image_def)
  with assms have l: "last p = CHR 0x00" by (simp add: valid_image_def last_conv_nth)
  note ne l
  then have p: "p = butlast p @ [CHR 0x00]" by (metis append_butlast_last_id)
  have "num p = num (butlast p)" by (subst p) (simp add: num_snoc)
  moreover have "num (butlast p) < 256 ^ 7"
    using num_bound [of "butlast p"] assms by (simp add: valid_image_def)
  ultimately show ?thesis by simp
qed

lemma valid_load: "valid_image (load Prerequisite_new k)"
  by (simp add: valid_image_def load_def Prerequisite_new_def nth_append min_def)

lemma slot_eq:
  assumes "valid_image p" "cap < 2 ^ 32" "i < cap"
  shows "slot p cap i = (num p + i) mod cap"
proof -
  have "num p + i < 2 ^ 56 + 2 ^ 32" using num_valid_bound [OF assms(1)] assms(2,3) by simp
  then have "num p + i < 2 ^ 64" by simp
  then have "hash p i cap = (num p + i) mod cap" by (simp add: hash_def)
  moreover have "(num p + i) mod cap < cap" using assms(3) by simp
  then have "(num p + i) mod cap < 2 ^ 32" using assms(2) by simp
  ultimately show ?thesis by (simp add: slot_def)
qed

lemma slot_less: "valid_image p \<Longrightarrow> cap < 2 ^ 32 \<Longrightarrow> i < cap \<Longrightarrow> slot p cap i < cap"
  by (simp add: slot_eq)

lemma add_mod_inj:
  fixes n :: nat
  assumes "i < cap" "j < cap" "(n + i) mod cap = (n + j) mod cap"
  shows "i = j"
proof -
  have aux: "a = b" if "a \<le> b" "b < cap" "(n + a) mod cap = (n + b) mod cap" for a b
  proof -
    from that have "cap dvd (n + b) - (n + a)"
      by (subst mod_eq_dvd_iff_nat [symmetric]) simp_all
    then have "cap dvd b - a" by simp
    moreover have "b - a < cap" using that by simp
    ultimately have "b - a = 0" by (meson dvd_imp_le not_le zero_less_iff_neq_zero)
    with that show ?thesis by simp
  qed
  show ?thesis
  proof (cases "i \<le> j")
    case True
    with assms aux show ?thesis by blast
  next
    case False
    then have "j \<le> i" by simp
    with assms aux [of j i] show ?thesis by simp
  qed
qed

lemma slot_inj:
  assumes "valid_image p" "cap < 2 ^ 32" "i < cap" "j < cap" "slot p cap i = slot p cap j"
  shows "i = j"
  using assms add_mod_inj [of i cap j "num p"] by (simp add: slot_eq)

lemma slot_surj:
  assumes "valid_image p" "cap < 2 ^ 32" "s < cap"
  shows "\<exists>i < cap. slot p cap i = s"
proof -
  have inj: "inj_on (slot p cap) {..<cap}"
    using assms(1,2) by (auto intro!: inj_onI dest: slot_inj)
  have sub: "slot p cap ` {..<cap} \<subseteq> {..<cap}"
    using assms(1,2) by (auto simp: slot_less)
  have "card (slot p cap ` {..<cap}) = cap" using inj by (simp add: card_image)
  with sub have "slot p cap ` {..<cap} = {..<cap}" by (simp add: card_subset_eq)
  with assms(3) show ?thesis by (metis imageE lessThan_iff)
qed


lemma wf_table_nth: "wf_table t \<Longrightarrow> s < capacity t \<Longrightarrow> valid_image (items t ! s)"
  by (simp add: wf_table_def)

lemma insert_loop_unfold:
  assumes "wf_table t" "valid_image p"
  shows "insert_loop t p idx =
     (if idx < capacity t then
        (if items t ! slot p (capacity t) idx = p then t
         else if items t ! slot p (capacity t) idx = Prerequisite_new
              then t\<lparr>items := (items t)[slot p (capacity t) idx := p]\<rparr>
         else insert_loop t p (idx + 1))
      else t)"
proof (cases "idx < capacity t")
  case False
  then show ?thesis by (simp add: insert_loop.simps)
next
  case True
  from assms(1) have cap: "capacity t < 2 ^ 32" by (simp add: wf_table_def)
  have v: "valid_image (items t ! slot p (capacity t) idx)"
    using assms True cap by (simp add: wf_table_nth slot_less)
  have "num (items t ! slot p (capacity t) idx) = num p \<longleftrightarrow> items t ! slot p (capacity t) idx = p"
    using v assms(2) by (intro num_eq_iff) (simp add: valid_image_def)
  moreover have "num (items t ! slot p (capacity t) idx) = 0 \<longleftrightarrow>
      items t ! slot p (capacity t) idx = Prerequisite_new"
    using v by (rule num_zero_iff)
  ultimately show ?thesis
    using True by (subst insert_loop.simps) (simp add: slot_def Let_def)
qed

lemma passes_step:
  assumes "items t ! slot p (capacity t) a \<noteq> p"
    "items t ! slot p (capacity t) a \<noteq> Prerequisite_new" "passes t p (a + 1) b"
  shows "passes t p a b"
  unfolding passes_def
proof (intro allI impI)
  fix j assume j: "a \<le> j \<and> j < b"
  show "items t ! slot p (capacity t) j \<noteq> p \<and>
        items t ! slot p (capacity t) j \<noteq> Prerequisite_new"
  proof (cases "j = a")
    case True
    with assms(1,2) show ?thesis by simp
  next
    case False
    with j have "a + 1 \<le> j \<and> j < b" by simp
    with assms(3) show ?thesis unfolding passes_def by blast
  qed
qed

lemma passes_empty: "b \<le> a \<Longrightarrow> passes t p a b"
  unfolding passes_def by (meson le_less_trans less_le_not_le)

lemma passesD:
  "passes t p a b \<Longrightarrow> a \<le> j \<Longrightarrow> j < b \<Longrightarrow>
   items t ! slot p (capacity t) j \<noteq> p \<and> items t ! slot p (capacity t) j \<noteq> Prerequisite_new"
  by (simp add: passes_def)

text \<open>The three ways in which the loop can end.\<close>

lemma insert_loop_outcome:
  assumes "wf_table t" "valid_image p"
  shows
   "(insert_loop t p idx = t \<and>
       (\<exists>i. idx \<le> i \<and> i < capacity t \<and> items t ! slot p (capacity t) i = p \<and>
          passes t p idx i)) \<or>
    (\<exists>i. idx \<le> i \<and> i < capacity t \<and> items t ! slot p (capacity t) i = Prerequisite_new \<and>
          p \<noteq> Prerequisite_new \<and> passes t p idx i \<and>
          insert_loop t p idx = t\<lparr>items := (items t)[slot p (capacity t) i := p]\<rparr>) \<or>
    (insert_loop t p idx = t \<and> passes t p idx (capacity t))"
  (is "?found idx \<or> ?placed idx \<or> ?full idx")
proof (induction "capacity t - idx" arbitrary: idx)
  case 0
  then have ge: "capacity t \<le> idx" by simp
  then have "insert_loop t p idx = t" using insert_loop_unfold [OF assms, of idx] by simp
  with ge have "?full idx" by (simp add: passes_empty)
  then show ?case by blast
next
  case (Suc n)
  then have lt: "idx < capacity t" by simp
  let ?s = "slot p (capacity t) idx"
  consider (eq) "items t ! ?s = p"
    | (free) "items t ! ?s \<noteq> p" "items t ! ?s = Prerequisite_new"
    | (other) "items t ! ?s \<noteq> p" "items t ! ?s \<noteq> Prerequisite_new"
    by blast
  then show ?case
  proof cases
    case eq
    then have "insert_loop t p idx = t" using insert_loop_unfold [OF assms, of idx] lt by simp
    moreover have "idx \<le> idx \<and> idx < capacity t \<and> items t ! ?s = p \<and> passes t p idx idx"
      using eq lt by (simp add: passes_empty)
    ultimately have "?found idx" by blast
    then show ?thesis by blast
  next
    case free
    then have "insert_loop t p idx = t\<lparr>items := (items t)[?s := p]\<rparr>"
      using insert_loop_unfold [OF assms, of idx] lt by simp
    moreover have "idx \<le> idx \<and> idx < capacity t \<and> items t ! ?s = Prerequisite_new \<and>
        p \<noteq> Prerequisite_new \<and> passes t p idx idx"
      using free lt by (auto simp: passes_empty)
    ultimately have "?placed idx" by blast
    then show ?thesis by blast
  next
    case other
    then have step: "insert_loop t p idx = insert_loop t p (idx + 1)"
      using insert_loop_unfold [OF assms, of idx] lt by simp
    from Suc.hyps(2) have "n = capacity t - (idx + 1)" by simp
    from Suc.hyps(1) [OF this]
    consider "?found (idx + 1)" | "?placed (idx + 1)" | "?full (idx + 1)" by blast
    then show ?thesis
    proof cases
      case 1
      then obtain i where i: "idx + 1 \<le> i" "i < capacity t" "items t ! slot p (capacity t) i = p"
        "passes t p (idx + 1) i" and r: "insert_loop t p (idx + 1) = t" by blast
      from i(1) have "idx \<le> i" by simp
      moreover have "passes t p idx i" using other i(4) by (rule passes_step)
      ultimately have "idx \<le> i \<and> i < capacity t \<and> items t ! slot p (capacity t) i = p \<and>
          passes t p idx i" using i(2,3) by simp
      then have "\<exists>i. idx \<le> i \<and> i < capacity t \<and> items t ! slot p (capacity t) i = p \<and>
          passes t p idx i" ..
      moreover have "insert_loop t p idx = t" by (rule trans [OF step r])
      ultimately have "?found idx" by (rule conjI [rotated])
      then show ?thesis by blast
    next
      case 2
      then obtain i where i: "idx + 1 \<le> i" "i < capacity t"
        "items t ! slot p (capacity t) i = Prerequisite_new" "p \<noteq> Prerequisite_new"
        "passes t p (idx + 1) i"
        and r: "insert_loop t p (idx + 1) = t\<lparr>items := (items t)[slot p (capacity t) i := p]\<rparr>"
        by blast
      from i(1) have "idx \<le> i" by simp
      moreover have "passes t p idx i" using other i(5) by (rule passes_step)
      moreover have "insert_loop t p idx = t\<lparr>items := (items t)[slot p (capacity t) i := p]\<rparr>"
        by (rule trans [OF step r])
      ultimately have "idx \<le> i \<and> i < capacity t \<and>
          items t ! slot p (capacity t) i = Prerequisite_new \<and>
          p \<noteq> Prerequisite_new \<and> passes t p idx i \<and>
          insert_loop t p idx = t\<lparr>items := (items t)[slot p (capacity t) i := p]\<rparr>"
        using i(2,3,4) by simp
      then have "?placed idx" ..
      then show ?thesis by blast
    next
      case 3
      then have r: "insert_loop t p (idx + 1) = t" and ps: "passes t p (idx + 1) (capacity t)"
        by blast+
      have "passes t p idx (capacity t)" using other ps by (rule passes_step)
      moreover have "insert_loop t p idx = t" by (rule trans [OF step r])
      ultimately have "?full idx" by blast
      then show ?thesis by blast
    qed
  qed
qed

lemma passes_unique:
  assumes "passes t p a i" "passes t p a i'" "a \<le> i" "a \<le> i'"
    "items t ! slot p (capacity t) i = p \<or> items t ! slot p (capacity t) i = Prerequisite_new"
    "items t ! slot p (capacity t) i' = p \<or> items t ! slot p (capacity t) i' = Prerequisite_new"
  shows "i = i'"
proof (rule ccontr)
  assume "i \<noteq> i'"
  then consider "i < i'" | "i' < i" by linarith
  then show False
  proof cases
    case 1
    from passesD [OF assms(2) assms(3) 1] assms(5) show False by blast
  next
    case 2
    from passesD [OF assms(1) assms(4) 2] assms(6) show False by blast
  qed
qed

lemma update_neq:
  assumes "s < length xs" "xs ! s \<noteq> p"
  shows "t\<lparr>items := xs[s := p]\<rparr> \<noteq> t\<lparr>items := xs\<rparr>"
proof
  assume "t\<lparr>items := xs[s := p]\<rparr> = t\<lparr>items := xs\<rparr>"
  then have "items (t\<lparr>items := xs[s := p]\<rparr>) = items (t\<lparr>items := xs\<rparr>)" by (rule arg_cong)
  then have "xs[s := p] = xs" by simp
  then have "xs[s := p] ! s = xs ! s" by simp
  with assms show False by simp
qed

lemma insert_loop_found:
  assumes "wf_table t" "valid_image p" "idx \<le> i" "i < capacity t"
    "items t ! slot p (capacity t) i = p" "passes t p idx i"
  shows "insert_loop t p idx = t"
proof -
  from insert_loop_outcome [OF assms(1,2), of idx]
  consider "insert_loop t p idx = t"
    | i' where "idx \<le> i'" "i' < capacity t" "items t ! slot p (capacity t) i' = Prerequisite_new"
        "p \<noteq> Prerequisite_new" "passes t p idx i'"
    by blast
  then show ?thesis
  proof cases
    case 1
    then show ?thesis .
  next
    case 2
    have "i = i'" using assms(6) 2(5) assms(3) 2(1) assms(5) 2(3)
      by (intro passes_unique [of t p idx]) simp_all
    with assms(5) 2(3,4) show ?thesis by simp
  qed
qed

lemma insert_loop_full:
  assumes "wf_table t" "valid_image p" "passes t p idx (capacity t)"
  shows "insert_loop t p idx = t"
proof -
  from insert_loop_outcome [OF assms(1,2), of idx]
  consider "insert_loop t p idx = t"
    | i' where "idx \<le> i'" "i' < capacity t" "items t ! slot p (capacity t) i' = Prerequisite_new"
    by blast
  then show ?thesis
  proof cases
    case 1
    then show ?thesis .
  next
    case 2
    from passesD [OF assms(3) 2(1,2)] 2(3) show ?thesis by blast
  qed
qed

text \<open>The outcome of \<open>insert\<close> itself.\<close>

lemma insert_table_outcome:
  fixes t :: PrereqHashTable and k :: string
  defines "p \<equiv> load Prerequisite_new k"
  assumes "wf_table t"
  shows
   "(insert_table t k = t \<and>
       (\<exists>i < capacity t. items t ! slot p (capacity t) i = p \<and> passes t p 0 i)) \<or>
    (\<exists>i < capacity t. items t ! slot p (capacity t) i = Prerequisite_new \<and>
          p \<noteq> Prerequisite_new \<and> passes t p 0 i \<and>
          insert_table t k = t\<lparr>items := (items t)[slot p (capacity t) i := p]\<rparr>) \<or>
    (insert_table t k = t \<and> passes t p 0 (capacity t))"
  using insert_loop_outcome [OF assms(2) valid_load [of k], of 0]
  unfolding insert_table_def p_def by simp

lemma wf_table_update:
  assumes "wf_table t" "valid_image p"
  shows "wf_table (t\<lparr>items := (items t)[s := p]\<rparr>)"
proof -
  have "set ((items t)[s := p]) \<subseteq> insert p (set (items t))" by (rule set_update_subset_insert)
  with assms show ?thesis by (auto simp: wf_table_def)
qed

lemma wf_insert_table: "wf_table t \<Longrightarrow> wf_table (insert_table t k)"
  using insert_table_outcome [of t k] wf_table_update [OF _ valid_load [of k]]
  by fastforce

lemma capacity_insert_table: "wf_table t \<Longrightarrow> capacity (insert_table t k) = capacity t"
  using insert_table_outcome [of t k] by fastforce


lemma passes_update:
  assumes "passes t p a b" "items t ! s = Prerequisite_new"
  shows "passes (t\<lparr>items := (items t)[s := q]\<rparr>) p a b"
  unfolding passes_def
proof (intro allI impI)
  fix j assume j: "a \<le> j \<and> j < b"
  let ?x = "slot p (capacity t) j"
  from j assms(1) have x: "items t ! ?x \<noteq> p" "items t ! ?x \<noteq> Prerequisite_new"
    by (simp_all add: passes_def)
  with assms(2) have "?x \<noteq> s" by auto
  then have "(items t)[s := q] ! ?x = items t ! ?x" by simp
  with x show "items (t\<lparr>items := (items t)[s := q]\<rparr>) !
          slot p (capacity (t\<lparr>items := (items t)[s := q]\<rparr>)) j \<noteq> p \<and>
        items (t\<lparr>items := (items t)[s := q]\<rparr>) !
          slot p (capacity (t\<lparr>items := (items t)[s := q]\<rparr>)) j \<noteq> Prerequisite_new"
    by simp
qed

text \<open>A key whose \<open>insert\<close> changes nothing stays such a key when others are inserted.\<close>

lemma insert_table_stable:
  assumes "wf_table t" "insert_table t k = t"
  shows "insert_table (insert_table t k') k = insert_table t k'"
proof -
  define p where "p = load Prerequisite_new k"
  define p' where "p' = load Prerequisite_new k'"
  define t' where "t' = insert_table t k'"
  have wf': "wf_table t'" unfolding t'_def using assms(1) by (rule wf_insert_table)
  have vp: "valid_image p" unfolding p_def by (rule valid_load)
  have cap': "capacity t' = capacity t" unfolding t'_def using assms(1) by (rule capacity_insert_table)
  have capb: "capacity t < 2 ^ 32" and len: "length (items t) = capacity t"
    using assms(1) by (simp_all add: wf_table_def)
  have goal_eq: "insert_table t' k = insert_loop t' p 0" by (simp add: insert_table_def p_def)
  have "insert_loop t' p 0 = t'"
  proof (cases "p = Prerequisite_new")
    case True
    with insert_loop_outcome [OF wf' vp, of 0] show ?thesis by blast
  next
    case False
    from insert_table_outcome [OF assms(1), of k']
    consider (same) "t' = t"
      | (upd) i' where "i' < capacity t" "items t ! slot p' (capacity t) i' = Prerequisite_new"
          "t' = t\<lparr>items := (items t)[slot p' (capacity t) i' := p']\<rparr>"
      unfolding t'_def p'_def by blast
    then show ?thesis
    proof cases
      case same
      with assms(2) show ?thesis by (simp add: insert_table_def p_def)
    next
      case upd
      let ?s' = "slot p' (capacity t) i'"
      from insert_table_outcome [OF assms(1), of k]
      consider (found) i where "i < capacity t" "items t ! slot p (capacity t) i = p" "passes t p 0 i"
        | (placed) i where "i < capacity t" "items t ! slot p (capacity t) i = Prerequisite_new"
            "insert_table t k = t\<lparr>items := (items t)[slot p (capacity t) i := p]\<rparr>"
        | (full) "passes t p 0 (capacity t)"
        unfolding p_def by blast
      then show ?thesis
      proof cases
        case found
        have "slot p (capacity t) i \<noteq> ?s'" using found(2) upd(2) False by auto
        then have "items t' ! slot p (capacity t') i = p"
          using found(2) by (simp add: upd(3))
        moreover have "passes t' p 0 i" unfolding upd(3) using found(3) upd(2) by (rule passes_update)
        moreover have "i < capacity t'" using found(1) cap' by simp
        ultimately show ?thesis using wf' vp by (intro insert_loop_found [of t' p 0 i]) simp_all
      next
        case placed
        have "slot p (capacity t) i < length (items t)"
          using placed(1) vp capb len by (simp add: slot_less)
        moreover have "items t ! slot p (capacity t) i \<noteq> p" using placed(2) False by simp
        ultimately have "t\<lparr>items := (items t)[slot p (capacity t) i := p]\<rparr> \<noteq> t\<lparr>items := items t\<rparr>"
          by (rule update_neq)
        with placed(3) assms(2) show ?thesis by simp
      next
        case full
        have "passes t' p 0 (capacity t)" unfolding upd(3) using full upd(2) by (rule passes_update)
        then have "passes t' p 0 (capacity t')" using cap' by simp
        with wf' vp show ?thesis by (rule insert_loop_full)
      qed
    qed
  qed
  with goal_eq show ?thesis unfolding t'_def by simp
qed

lemma insert_table_absorb:
  assumes "wf_table t"
  shows "insert_table (insert_table t k) k = insert_table t k"
proof -
  define p where "p = load Prerequisite_new k"
  have vp: "valid_image p" unfolding p_def by (rule valid_load)
  have capb: "capacity t < 2 ^ 32" and len: "length (items t) = capacity t"
    using assms(1) by (simp_all add: wf_table_def)
  from insert_table_outcome [OF assms, of k]
  consider (same) "insert_table t k = t"
    | (placed) i where "i < capacity t" "items t ! slot p (capacity t) i = Prerequisite_new"
        "passes t p 0 i"
        "insert_table t k = t\<lparr>items := (items t)[slot p (capacity t) i := p]\<rparr>"
    unfolding p_def by blast
  then show ?thesis
  proof cases
    case same
    then show ?thesis by simp
  next
    case placed
    let ?t' = "t\<lparr>items := (items t)[slot p (capacity t) i := p]\<rparr>"
    have wf': "wf_table ?t'" using assms vp by (rule wf_table_update)
    have "slot p (capacity t) i < length (items t)"
      using placed(1) vp capb len by (simp add: slot_less)
    then have "items ?t' ! slot p (capacity ?t') i = p" by simp
    moreover have "passes ?t' p 0 i" using placed(3,2) by (rule passes_update)
    moreover have "i < capacity ?t'" using placed(1) by simp
    ultimately have "insert_loop ?t' p 0 = ?t'"
      using wf' vp by (intro insert_loop_found [of ?t' p 0 i]) simp_all
    then show ?thesis unfolding placed(4) by (simp add: insert_table_def p_def)
  qed
qed

lemma register_all_snoc: "register_all t (ks @ [k]) = insert_table (register_all t ks) k"
  by (simp add: register_all_def)

lemma register_all_Cons: "register_all t (k # ks) = register_all (insert_table t k) ks"
  by (simp add: register_all_def)

lemma wf_register_all: "wf_table t \<Longrightarrow> wf_table (register_all t ks)"
  by (induction ks rule: rev_induct) (simp_all add: register_all_def wf_insert_table)

lemma register_all_stable:
  "wf_table t \<Longrightarrow> k \<in> set ks \<Longrightarrow> insert_table (register_all t ks) k = register_all t ks"
proof (induction ks rule: rev_induct)
  case Nil
  then show ?case by simp
next
  case (snoc x xs)
  have wf: "wf_table (register_all t xs)" using snoc.prems(1) by (rule wf_register_all)
  show ?case
  proof (cases "k = x")
    case True
    then show ?thesis using insert_table_absorb [OF wf] by (simp add: register_all_snoc)
  next
    case False
    with snoc have "insert_table (register_all t xs) k = register_all t xs" by simp
    from insert_table_stable [OF wf this] show ?thesis by (simp add: register_all_snoc)
  qed
qed

lemma register_all_noop:
  "(\<And>k. k \<in> set ks \<Longrightarrow> insert_table t k = t) \<Longrightarrow> register_all t ks = t"
  by (induction ks) (simp_all add: register_all_def)

text \<open>Registering the same keys a second time changes nothing.\<close>

lemma register_all_twice:
  "wf_table t \<Longrightarrow> register_all (register_all t ks) ks = register_all t ks"
  by (rule register_all_noop) (rule register_all_stable)

section \<open>Properties of parsing and loading\<close>

lemma getline_measure:
  assumes "\<not> snd stream" "getline stream str delim = (stream', s)"
  shows "length (fst stream') + (if snd stream' then 0 else 1) < length (fst stream) + 1"
  using assms length_dropWhile_le [of "\<lambda>c. c \<noteq> delim" "fst stream"]
  by (auto simp: getline_def split: list.splits)

lemma read_prerequisites_ex:
  "\<exists>P. [] \<notin> set P \<and>
       (\<forall>c t. read_prerequisites stream c t =
                 (c\<lparr>prerequisites := prerequisites c @ P\<rparr>, register_all t P))"
proof (induction "length (fst stream) + (if snd stream then 0 else 1)" arbitrary: stream
       rule: less_induct)
  case less
  show ?case
  proof (cases "snd stream")
    case True
    then have "[] \<notin> set [] \<and> (\<forall>c t. read_prerequisites stream c t =
                 (c\<lparr>prerequisites := prerequisites c @ []\<rparr>, register_all t []))"
      by (simp add: read_prerequisites.simps register_all_def)
    then show ?thesis ..
  next
    case False
    obtain stream' pr where g: "getline stream [] CHR '','' = (stream', pr)"
      by (cases "getline stream [] CHR '',''")
    from getline_measure [OF False g] False
    have "length (fst stream') + (if snd stream' then 0 else 1)
          < length (fst stream) + (if snd stream then 0 else 1)" by simp
    from less [OF this] obtain P where n: "[] \<notin> set P"
      and P: "\<And>c t. read_prerequisites stream' c t =
                 (c\<lparr>prerequisites := prerequisites c @ P\<rparr>, register_all t P)" by blast
    show ?thesis
    proof (cases "(length pr = 1 \<and> pr ! 0 = CHR 0x0D) \<or> pr = []")
      case True
      then have "\<forall>c t. read_prerequisites stream c t =
                 (c\<lparr>prerequisites := prerequisites c @ P\<rparr>, register_all t P)"
        using False g P by (subst read_prerequisites.simps) simp
      with n show ?thesis by blast
    next
      case skip: False
      then have "\<forall>c t. read_prerequisites stream c t =
                 (c\<lparr>prerequisites := prerequisites c @ (pr # P)\<rparr>, register_all t (pr # P))"
        using False g P by (subst read_prerequisites.simps) (auto simp: register_all_Cons)
      moreover from skip n have "[] \<notin> set (pr # P)" by auto
      ultimately show ?thesis by blast
    qed
  qed
qed

lemma read_prerequisites_eq:
  "read_prerequisites stream c t =
     (c\<lparr>prerequisites := prerequisites c @ prereq_fields stream\<rparr>,
      register_all t (prereq_fields stream))"
proof -
  from read_prerequisites_ex [of stream] obtain P where P: "\<And>c t. read_prerequisites stream c t =
                 (c\<lparr>prerequisites := prerequisites c @ P\<rparr>, register_all t P)" by blast
  have "prereq_fields stream = P" by (simp add: prereq_fields_def P Course_new_def)
  with P show ?thesis by simp
qed

lemma prereq_fields_nonempty: "[] \<notin> set (prereq_fields stream)"
proof -
  from read_prerequisites_ex [of stream] obtain P where n: "[] \<notin> set P"
    and P: "\<And>c t. read_prerequisites stream c t =
                 (c\<lparr>prerequisites := prerequisites c @ P\<rparr>, register_all t P)" by blast
  have "prereq_fields stream = P" by (simp add: prereq_fields_def P Course_new_def)
  with n show ?thesis by simp
qed

lemma init_parse:
  "init Course_new line t =
     (case parse line of
        (Some e, c) \<Rightarrow> (Some e, c, t)
      | (None, c) \<Rightarrow> (None, c, register_all t (prerequisites c)))"
  by (simp add: parse_def init_def Let_def read_prerequisites_eq Course_new_def Course_clear_def
      split: prod.splits)

lemma register_all_append:
  "register_all t (ks @ ks') = register_all (register_all t ks) ks'"
  by (simp add: register_all_def)

lemma read_lines_Inr:
  "read_lines d n lines = Inr (d', n') \<longleftrightarrow>
     (\<forall>l \<in> set lines. fst (parse l) = None) \<and>
     d' = \<lparr>tree = foldl Insert (tree d) (courses_of lines),
           prereqTable = register_all (prereqTable d) (registered_keys lines)\<rparr> \<and>
     n' = n + length lines"
proof (induction lines arbitrary: d n)
  case Nil
  show ?case by (cases d) (auto simp: courses_of_def registered_keys_def register_all_def)
next
  case (Cons l ls)
  obtain e c where p: "parse l = (e, c)" by (cases "parse l")
  show ?case
  proof (cases e)
    case None
    with p have i: "init Course_new l (prereqTable d) =
        (None, c, register_all (prereqTable d) (prerequisites c))"
      by (simp add: init_parse)
    have "registered_keys (l # ls) = prerequisites c @ registered_keys ls"
      and "courses_of (l # ls) = c # courses_of ls"
      using p by (simp_all add: registered_keys_def courses_of_def)
    with Cons [of "\<lparr>tree = Insert (tree d) c,
        prereqTable = register_all (prereqTable d) (prerequisites c)\<rparr>" "n + 1"] i p None
    show ?thesis by (simp add: register_all_append)
  next
    case (Some err)
    with p have "init Course_new l (prereqTable d) = (Some err, c, prereqTable d)"
      by (simp add: init_parse)
    with p Some show ?thesis by simp
  qed
qed

lemma checkPrerequisites_loop_find:
  assumes "length (items (prereqTable d)) = capacity (prereqTable d)"
  shows "checkPrerequisites_loop d i =
     find (\<lambda>c. \<not> Exists (tree d) c)
       (map getString (filter (\<lambda>p. \<not> Prerequisite_empty p) (drop i (items (prereqTable d)))))"
proof (induction "capacity (prereqTable d) - i" arbitrary: i)
  case 0
  then show ?case using assms by (subst checkPrerequisites_loop.simps) simp
next
  case (Suc n)
  then have lt: "i < length (items (prereqTable d))" using assms by simp
  then have dr: "drop i (items (prereqTable d)) =
      items (prereqTable d) ! i # drop (i + 1) (items (prereqTable d))"
    by (simp add: Cons_nth_drop_Suc)
  from Suc.hyps(2) have "n = capacity (prereqTable d) - (i + 1)" by simp
  from Suc.hyps(1) [OF this] lt assms show ?case
    by (subst checkPrerequisites_loop.simps) (simp add: dr Let_def)
qed

text \<open>
  The validation pass reads the occupied slots in array order and stops at the first
  one whose string the tree does not know.
\<close>

lemma checkPrerequisites_find:
  "wf_table (prereqTable d) \<Longrightarrow>
   checkPrerequisites d = find (\<lambda>c. \<not> Exists (tree d) c) (checked_keys (prereqTable d))"
  by (simp add: checkPrerequisites_def checkPrerequisites_loop_find wf_table_def
      checked_keys_def occupied_def)

lemma loadCourses_Inr:
  "loadCourses d lines = Inr (d', n) \<longleftrightarrow>
     (\<forall>l \<in> set lines. fst (parse l) = None) \<and>
     d' = \<lparr>tree = build (courses_of lines),
           prereqTable = register_all (prereqTable d) (registered_keys lines)\<rparr> \<and>
     n = length lines \<and> checkPrerequisites d' = None"
proof -
  let ?d' = "\<lparr>tree = build (courses_of lines),
           prereqTable = register_all (prereqTable d) (registered_keys lines)\<rparr>"
  show ?thesis
  proof (cases "read_lines (d\<lparr>tree := drain (tree d)\<rparr>) 0 lines")
    case (Inl e)
    then have "\<not> (\<forall>l \<in> set lines. fst (parse l) = None)"
      using read_lines_Inr [of "d\<lparr>tree := drain (tree d)\<rparr>" 0 lines] by auto
    with Inl show ?thesis by (simp add: loadCourses_def)
  next
    case (Inr r)
    obtain d1 n1 where r: "r = (d1, n1)" by (cases r)
    with Inr read_lines_Inr [of "d\<lparr>tree := drain (tree d)\<rparr>" 0 lines d1 n1]
    have ok: "\<forall>l \<in> set lines. fst (parse l) = None" and d1: "d1 = ?d'" and n1: "n1 = length lines"
      by (simp_all add: drain_def build_def)
    show ?thesis
      using Inr r ok d1 n1 by (cases "checkPrerequisites ?d'") (auto simp: loadCourses_def)
  qed
qed

lemma getline_good:
  "getline (s, False) str delim =
     ((drop 1 (dropWhile (\<lambda>c. c \<noteq> delim) s), dropWhile (\<lambda>c. c \<noteq> delim) s = []),
      takeWhile (\<lambda>c. c \<noteq> delim) s)"
  by (cases "dropWhile (\<lambda>c. c \<noteq> delim) s")
    (simp_all add: getline_def del: dropWhile_eq_Nil_conv)

lemma getline_eof: "getline (s, True) str delim = ((s, True), str)"
  by (simp add: getline_def)

lemma init_fresh:
  "init Course_new line t =
     (if length (key_field line) \<noteq> 7 then (Some MalformedKey, Course_new, t)
      else if title_field line = [] then (Some EmptyTitle, Course_new, t)
      else (None,
            fst (read_prerequisites
                   (fst (getline (drop 1 (dropWhile (\<lambda>c. c \<noteq> CHR '','') line), False) [] CHR '',''))
                   \<lparr>number = key_field line, title = title_field line, prerequisites = []\<rparr> t),
            snd (read_prerequisites
                   (fst (getline (drop 1 (dropWhile (\<lambda>c. c \<noteq> CHR '','') line), False) [] CHR '',''))
                   \<lparr>number = key_field line, title = title_field line, prerequisites = []\<rparr> t)))"
proof (cases "length (key_field line) \<noteq> 7")
  case True
  then show ?thesis
    by (simp add: init_def getline_good key_field_def Course_new_def Course_clear_def)
next
  case k: False
  show ?thesis
  proof (cases "dropWhile (\<lambda>c. c \<noteq> CHR '','') line = []")
    case True
    then have "title_field line = []" by (simp add: title_field_def del: dropWhile_eq_Nil_conv)
    with k True show ?thesis
      by (simp add: init_def getline_good getline_eof key_field_def Course_new_def Course_clear_def
          del: dropWhile_eq_Nil_conv)
  next
    case False
    with k show ?thesis
      by (simp add: init_def Let_def getline_good key_field_def title_field_def Course_new_def
          Course_clear_def del: dropWhile_eq_Nil_conv split: prod.splits)
  qed
qed

lemma init_error_iff:
  "(fst (init Course_new line t) = Some MalformedKey \<longleftrightarrow> length (key_field line) \<noteq> 7) \<and>
   (fst (init Course_new line t) = Some EmptyTitle \<longleftrightarrow>
      length (key_field line) = 7 \<and> title_field line = []) \<and>
   (fst (init Course_new line t) = None \<longleftrightarrow>
      length (key_field line) = 7 \<and> title_field line \<noteq> [])"
  by (simp add: init_fresh)

lemma Course_clear_eq: "Course_clear c = Course_new"
  by (cases c) (simp add: Course_clear_def Course_new_def)

lemma init_failure_clears:
  assumes "fst (init c line t) \<noteq> None"
  shows "init c line t = (fst (init c line t), Course_new, t)"
proof -
  obtain s1 n1 where g1: "getline (line, False) (number c) CHR '','' = (s1, n1)"
    by (cases "getline (line, False) (number c) CHR '',''")
  obtain s2 n2 where g2: "getline s1 (title c) CHR '','' = (s2, n2)"
    by (cases "getline s1 (title c) CHR '',''")
  obtain c3 t3 where g3: "read_prerequisites s2 (c\<lparr>number := n1, title := n2\<rparr>) t = (c3, t3)"
    by (cases "read_prerequisites s2 (c\<lparr>number := n1, title := n2\<rparr>) t")
  from assms show ?thesis
    by (simp add: init_def Let_def g1 g2 g3 Course_clear_eq split: if_splits)
qed

lemma takeWhile_neq_id: "x \<notin> set xs \<Longrightarrow> takeWhile (\<lambda>c. c \<noteq> x) xs = xs"
  by (induction xs) auto

lemma getString_load:
  "getString (load Prerequisite_new k) = takeWhile (\<lambda>c. c \<noteq> CHR 0x00) (take 7 k)"
proof -
  have z: "drop (min 7 (length k)) Prerequisite_new = CHR 0x00 # drop (min 7 (length k) + 1) Prerequisite_new"
    by (subst Cons_nth_drop_Suc [symmetric])
       (simp_all add: Prerequisite_new_def nth_Cons' min_def)
  show ?thesis
  proof (cases "CHR 0x00 \<in> set (take 7 k)")
    case True
    then show ?thesis by (simp add: getString_def load_def)
  next
    case False
    then have a: "takeWhile (\<lambda>c. c \<noteq> CHR 0x00) (take 7 k) = take 7 k"
      by (rule takeWhile_neq_id)
    have "takeWhile (\<lambda>c. c \<noteq> CHR 0x00) (take 7 k @ drop (min 7 (length k)) Prerequisite_new)
        = take 7 k @ takeWhile (\<lambda>c. c \<noteq> CHR 0x00) (drop (min 7 (length k)) Prerequisite_new)"
      using False by (intro takeWhile_append2) auto
    also have "\<dots> = take 7 k" by (subst z) simp
    finally show ?thesis unfolding a by (simp add: getString_def load_def)
  qed
qed



section \<open>Running the model on concrete input\<close>

text \<open>
  The simplifier runs the functions on literals; these are the equations it needs. The
  hash is computed on numerals, which the recursive code equations of division on
  \<^typ>\<open>nat\<close> cannot do in reasonable time.
\<close>

lemma list_update_numeral:
  "(x # xs)[numeral k := y] = x # xs[pred_numeral k := y]"
  by (simp add: numeral_eq_Suc)

lemma replicate_27:
  "replicate 27 x = [x,x,x,x,x,x,x,x,x, x,x,x,x,x,x,x,x,x, x,x,x,x,x,x,x,x,x]"
  by (simp add: numeral_eq_Suc)

lemmas table_simps =
  insert_table_def insert_loop.simps load_def Prerequisite_new_def num_Nil num_Cons hash_def
  Let_def Prerequisite_empty_def getString_def PrereqHashTable_new_def
  DEFAULT_PREREQUISITE_TABLE_SIZE_def replicate_27 list_update_numeral

lemmas run_simps =
  loadCourses_def init_def getline_def read_prerequisites.simps
  checkPrerequisites_def checkPrerequisites_loop.simps Exists_def Insert_def drain_def
  Driver_new_def Course_new_def Course_clear_def table_simps

lemma wf_table_new: "cap < 2 ^ 32 \<Longrightarrow> wf_table (PrereqHashTable_new cap)"
  by (simp add: wf_table_def PrereqHashTable_new_def valid_Prerequisite_new)

lemma wf_table_Driver_new: "wf_table (prereqTable Driver_new)"
  by (simp add: Driver_new_def DEFAULT_PREREQUISITE_TABLE_SIZE_def wf_table_new)

lemmas parse_simps =
  registered_keys_def courses_of_def parse_def key_field_def title_field_def

lemma capacity_new: "capacity (PrereqHashTable_new cap) = cap"
  by (simp add: PrereqHashTable_new_def)

section \<open>The table never holds a key twice\<close>

lemma Prerequisite_empty_iff:
  "valid_image p \<Longrightarrow> Prerequisite_empty p \<longleftrightarrow> p = Prerequisite_new"
  by (simp add: Prerequisite_empty_def num_zero_iff)

lemma set_occupied:
  "wf_table t \<Longrightarrow> set (occupied t) = set (items t) - {Prerequisite_new}"
  by (auto simp: occupied_def wf_table_def Prerequisite_empty_iff)

lemma probe_chain_new: "probe_chain (PrereqHashTable_new cap)"
  by (simp add: probe_chain_def PrereqHashTable_new_def)

lemma table_inv_new: "cap < 2 ^ 32 \<Longrightarrow> table_inv (PrereqHashTable_new cap)"
  by (simp add: table_inv_def probe_chain_new wf_table_new)

lemma probe_chain_update:
  assumes wf: "wf_table t" and ch: "probe_chain t" and vp: "valid_image p"
    and i: "i < capacity t" and free: "items t ! slot p (capacity t) i = Prerequisite_new"
    and ps: "passes t p 0 i"
  shows "probe_chain (t\<lparr>items := (items t)[slot p (capacity t) i := p]\<rparr>)"
proof -
  let ?s0 = "slot p (capacity t) i"
  let ?t' = "t\<lparr>items := (items t)[?s0 := p]\<rparr>"
  have capb: "capacity t < 2 ^ 32" and len: "length (items t) = capacity t"
    using wf by (simp_all add: wf_table_def)
  have s0: "?s0 < length (items t)" using i vp capb len by (simp add: slot_less)
  have "\<exists>j < capacity ?t'. slot (items ?t' ! s) (capacity ?t') j = s \<and>
          passes ?t' (items ?t' ! s) 0 j"
    if s: "s < capacity ?t'" and occ: "items ?t' ! s \<noteq> Prerequisite_new" for s
  proof (cases "s = ?s0")
    case True
    then have "items ?t' ! s = p" using s0 by simp
    moreover have "passes ?t' p 0 i" using ps free by (rule passes_update)
    ultimately show ?thesis using i True by auto
  next
    case False
    then have same: "items ?t' ! s = items t ! s" by simp
    with occ s ch obtain j where j: "j < capacity t" "slot (items t ! s) (capacity t) j = s"
      "passes t (items t ! s) 0 j"
      unfolding probe_chain_def by auto
    have "passes ?t' (items t ! s) 0 j" using j(3) free by (rule passes_update)
    with j(1,2) same show ?thesis by auto
  qed
  then show ?thesis unfolding probe_chain_def by blast
qed

lemma table_inv_insert: "table_inv t \<Longrightarrow> table_inv (insert_table t k)"
proof -
  assume inv: "table_inv t"
  then have wf: "wf_table t" and ch: "probe_chain t" by (simp_all add: table_inv_def)
  define p where "p = load Prerequisite_new k"
  have vp: "valid_image p" unfolding p_def by (rule valid_load)
  from insert_table_outcome [OF wf, of k]
  consider (same) "insert_table t k = t"
    | (placed) i where "i < capacity t" "items t ! slot p (capacity t) i = Prerequisite_new"
        "passes t p 0 i"
        "insert_table t k = t\<lparr>items := (items t)[slot p (capacity t) i := p]\<rparr>"
    unfolding p_def by blast
  then show ?thesis
  proof cases
    case same
    with inv show ?thesis by simp
  next
    case placed
    have "probe_chain (insert_table t k)"
      unfolding placed(4) using wf ch vp placed(1,2,3) by (rule probe_chain_update)
    with wf_insert_table [OF wf, of k] show ?thesis by (simp add: table_inv_def)
  qed
qed

lemma table_inv_register_all: "table_inv t \<Longrightarrow> table_inv (register_all t ks)"
  by (induction ks rule: rev_induct) (simp_all add: register_all_def table_inv_insert)

lemma distinct_filter_nth:
  assumes "\<And>i j. i < j \<Longrightarrow> j < length xs \<Longrightarrow> P (xs ! i) \<Longrightarrow> xs ! i \<noteq> xs ! j"
  shows "distinct (filter P xs)"
  using assms
proof (induction xs)
  case Nil
  show ?case by simp
next
  case (Cons x xs)
  have "distinct (filter P xs)"
  proof (rule Cons.IH)
    fix i j assume "i < j" "j < length xs" "P (xs ! i)"
    then show "xs ! i \<noteq> xs ! j" using Cons.prems [of "Suc i" "Suc j"] by simp
  qed
  moreover have "x \<notin> set xs" if "P x"
  proof
    assume "x \<in> set xs"
    then obtain j where "j < length xs" "xs ! j = x" by (auto simp: in_set_conv_nth)
    with Cons.prems [of 0 "Suc j"] that show False by simp
  qed
  ultimately show ?case by auto
qed

lemma occupied_slots_differ:
  assumes inv: "table_inv t" and s: "s < capacity t" and s': "s' < capacity t"
    and occ: "items t ! s \<noteq> Prerequisite_new" and eq: "items t ! s = items t ! s'"
  shows "s = s'"
proof -
  from inv have ch: "probe_chain t" by (simp add: table_inv_def)
  let ?q = "items t ! s"
  from ch s occ obtain i where i: "i < capacity t" "slot ?q (capacity t) i = s" "passes t ?q 0 i"
    unfolding probe_chain_def by blast
  from ch s' occ eq obtain i' where i': "i' < capacity t" "slot ?q (capacity t) i' = s'"
    "passes t ?q 0 i'"
    unfolding probe_chain_def by metis
  have "i = i'"
    using i(3) i'(3) i(2) i'(2) eq by (intro passes_unique [of t ?q 0]) simp_all
  with i(2) i'(2) show ?thesis by simp
qed

text \<open>No two occupied slots hold the same key.\<close>

lemma distinct_occupied: "table_inv t \<Longrightarrow> distinct (occupied t)"
proof -
  assume inv: "table_inv t"
  then have wf: "wf_table t" by (simp add: table_inv_def)
  then have len: "length (items t) = capacity t" by (simp add: wf_table_def)
  show ?thesis
    unfolding occupied_def
  proof (rule distinct_filter_nth)
    fix i j assume ij: "i < j" "j < length (items t)"
      and ne: "\<not> Prerequisite_empty (items t ! i)"
    from ij len have i: "i < capacity t" and j: "j < capacity t" by simp_all
    from ne wf_table_nth [OF wf i] have "items t ! i \<noteq> Prerequisite_new"
      by (simp add: Prerequisite_empty_iff)
    with occupied_slots_differ [OF inv i j] ij(1) show "items t ! i \<noteq> items t ! j" by auto
  qed
qed

text \<open>
  \<open>insert\<close> never empties or overwrites an occupied slot, and adds nothing but the key.
\<close>

lemma occupied_insert:
  assumes "wf_table t"
  shows "set (occupied (insert_table t k)) = set (occupied t) \<or>
         set (occupied (insert_table t k)) = insert (load Prerequisite_new k) (set (occupied t))"
proof -
  define p where "p = load Prerequisite_new k"
  have vp: "valid_image p" unfolding p_def by (rule valid_load)
  have capb: "capacity t < 2 ^ 32" and len: "length (items t) = capacity t"
    using assms by (simp_all add: wf_table_def)
  from insert_table_outcome [OF assms, of k]
  consider (same) "insert_table t k = t"
    | (placed) i where "i < capacity t" "items t ! slot p (capacity t) i = Prerequisite_new"
        "p \<noteq> Prerequisite_new"
        "insert_table t k = t\<lparr>items := (items t)[slot p (capacity t) i := p]\<rparr>"
    unfolding p_def by blast
  then show ?thesis
  proof cases
    case same
    then show ?thesis by simp
  next
    case placed
    let ?s0 = "slot p (capacity t) i"
    have s0: "?s0 < length (items t)" using placed(1) vp capb len by (simp add: slot_less)
    have wf': "wf_table (insert_table t k)" using assms by (rule wf_insert_table)
    have "set ((items t)[?s0 := p]) - {Prerequisite_new} = insert p (set (items t) - {Prerequisite_new})"
    proof (intro equalityI subsetI)
      fix x assume "x \<in> set ((items t)[?s0 := p]) - {Prerequisite_new}"
      then show "x \<in> insert p (set (items t) - {Prerequisite_new})"
        using set_update_subset_insert [of "items t" ?s0 p] by auto
    next
      fix x assume x: "x \<in> insert p (set (items t) - {Prerequisite_new})"
      show "x \<in> set ((items t)[?s0 := p]) - {Prerequisite_new}"
      proof (cases "x = p")
        case True
        with s0 placed(3) show ?thesis by (simp add: set_update_memI)
      next
        case False
        with x have xin: "x \<in> set (items t)" and xn: "x \<noteq> Prerequisite_new" by auto
        then obtain j where j: "j < length (items t)" "items t ! j = x"
          by (auto simp: in_set_conv_nth)
        with placed(2) xn have "j \<noteq> ?s0" by auto
        with j have "(items t)[?s0 := p] ! j = x" "j < length ((items t)[?s0 := p])" by simp_all
        then have "x \<in> set ((items t)[?s0 := p])" by (metis nth_mem)
        with xn show ?thesis by simp
      qed
    qed
    then have "set (occupied (insert_table t k)) = insert p (set (occupied t))"
      using set_occupied [OF wf'] set_occupied [OF assms] by (simp add: placed(4))
    then show ?thesis unfolding p_def by blast
  qed
qed

lemma Prerequisite_new_replicate: "Prerequisite_new = replicate 8 (CHR 0x00)"
  by (simp add: Prerequisite_new_def numeral_eq_Suc)

lemma load_zero_iff:
  "load Prerequisite_new k = Prerequisite_new \<longleftrightarrow> (\<forall>c \<in> set (take 7 k). c = CHR 0x00)"
proof
  assume "load Prerequisite_new k = Prerequisite_new"
  then have "set (take 7 k @ drop (min 7 (length k)) Prerequisite_new) = set Prerequisite_new"
    by (simp add: load_def)
  then have "set (take 7 k) \<subseteq> set Prerequisite_new" by auto
  then show "\<forall>c \<in> set (take 7 k). c = CHR 0x00" by (auto simp: Prerequisite_new_def)
next
  assume z: "\<forall>c \<in> set (take 7 k). c = CHR 0x00"
  then have "take 7 k = replicate (length (take 7 k)) (CHR 0x00)"
    by (intro replicate_length_same [symmetric]) simp
  then have "take 7 k = replicate (min 7 (length k)) (CHR 0x00)" by (simp add: min.commute)
  then have "load Prerequisite_new k =
      replicate (min 7 (length k)) (CHR 0x00) @ replicate (8 - min 7 (length k)) (CHR 0x00)"
    by (simp add: load_def Prerequisite_new_replicate)
  also have "\<dots> = replicate 8 (CHR 0x00)"
    by (simp add: replicate_add [symmetric] min_def)
  finally show "load Prerequisite_new k = Prerequisite_new"
    by (simp add: Prerequisite_new_replicate)
qed

lemma holds_iff:
  "wf_table t \<Longrightarrow> holds t k \<longleftrightarrow>
     load Prerequisite_new k \<in> set (items t) \<and> load Prerequisite_new k \<noteq> Prerequisite_new"
  by (simp add: holds_def set_occupied)

lemma free_slot:
  assumes "wf_table t" "length (occupied t) < capacity t"
  shows "Prerequisite_new \<in> set (items t)"
proof (rule ccontr)
  assume n: "Prerequisite_new \<notin> set (items t)"
  have "\<forall>p \<in> set (items t). \<not> Prerequisite_empty p"
    using assms(1) n by (auto simp: wf_table_def Prerequisite_empty_iff)
  then have "filter (\<lambda>p. \<not> Prerequisite_empty p) (items t) = items t" by (simp add: filter_id_conv)
  with assms show False by (simp add: occupied_def wf_table_def)
qed

text \<open>A key that the table holds is found by \<open>insert\<close>, which then changes nothing.\<close>

lemma insert_table_held:
  assumes "table_inv t" "holds t k"
  shows "insert_table t k = t"
proof -
  from assms(1) have wf: "wf_table t" and ch: "probe_chain t" by (simp_all add: table_inv_def)
  define p where "p = load Prerequisite_new k"
  have vp: "valid_image p" unfolding p_def by (rule valid_load)
  from assms(2) wf have "p \<in> set (items t)" "p \<noteq> Prerequisite_new"
    by (simp_all add: holds_iff p_def)
  then obtain s where s: "s < length (items t)" "items t ! s = p" by (auto simp: in_set_conv_nth)
  with wf have sc: "s < capacity t" by (simp add: wf_table_def)
  with ch s(2) \<open>p \<noteq> Prerequisite_new\<close> obtain i where i: "i < capacity t"
    "slot p (capacity t) i = s" "passes t p 0 i"
    unfolding probe_chain_def by auto
  have "insert_loop t p 0 = t"
    using wf vp i s(2) by (intro insert_loop_found [of t p 0 i]) simp_all
  then show ?thesis by (simp add: insert_table_def p_def)
qed

text \<open>With a free slot, or with the key already there, \<open>insert\<close> leaves the key in the table.\<close>

lemma insert_table_holds:
  assumes wf: "wf_table t" and nz: "load Prerequisite_new k \<noteq> Prerequisite_new"
    and room: "holds t k \<or> length (occupied t) < capacity t"
  shows "holds (insert_table t k) k \<and>
         set (occupied (insert_table t k)) = insert (load Prerequisite_new k) (set (occupied t))"
proof -
  define p where "p = load Prerequisite_new k"
  have vp: "valid_image p" unfolding p_def by (rule valid_load)
  have capb: "capacity t < 2 ^ 32" and len: "length (items t) = capacity t"
    using wf by (simp_all add: wf_table_def)
  have wf': "wf_table (insert_table t k)" using wf by (rule wf_insert_table)
  from room have stop: "p \<in> set (items t) \<or> Prerequisite_new \<in> set (items t)"
    using holds_iff [OF wf, of k] free_slot [OF wf] by (auto simp: p_def)
  have not_full: "\<not> passes t p 0 (capacity t)"
  proof
    assume full: "passes t p 0 (capacity t)"
    from stop obtain x where x: "x \<in> set (items t)" "x = p \<or> x = Prerequisite_new" by blast
    then obtain s where s: "s < capacity t" "items t ! s = x"
      using len by (auto simp: in_set_conv_nth)
    from slot_surj [OF vp capb s(1)] obtain i where i: "i < capacity t" "slot p (capacity t) i = s"
      by blast
    from passesD [OF full _ i(1)] i(2) s(2) x(2) show False by auto
  qed
  from insert_table_outcome [OF wf, of k] not_full
  consider (found) i where "i < capacity t" "items t ! slot p (capacity t) i = p"
      "insert_table t k = t"
    | (placed) i where "i < capacity t" "items t ! slot p (capacity t) i = Prerequisite_new"
        "insert_table t k = t\<lparr>items := (items t)[slot p (capacity t) i := p]\<rparr>"
    unfolding p_def by blast
  then have h: "holds (insert_table t k) k"
  proof cases
    case found
    have "slot p (capacity t) i < length (items t)"
      using found(1) vp capb len by (simp add: slot_less)
    then have "p \<in> set (items t)" using found(2) by (metis nth_mem)
    with nz show ?thesis using holds_iff [OF wf, of k] by (simp add: found(3) p_def)
  next
    case placed
    have "slot p (capacity t) i < length (items t)"
      using placed(1) vp capb len by (simp add: slot_less)
    then have "p \<in> set (items (insert_table t k))" by (simp add: placed(3) set_update_memI)
    with nz show ?thesis using holds_iff [OF wf', of k] by (simp add: p_def)
  qed
  moreover from h have "load Prerequisite_new k \<in> set (occupied (insert_table t k))"
    by (simp add: holds_def)
  with occupied_insert [OF wf, of k]
  have "set (occupied (insert_table t k)) = insert (load Prerequisite_new k) (set (occupied t))"
    by auto
  ultimately show ?thesis by simp
qed

lemma funpow_insert_table:
  assumes "wf_table t" "0 < n"
  shows "((\<lambda>u. insert_table u k) ^^ n) t = insert_table t k"
  using assms(2)
proof (induction n)
  case 0
  then show ?case by simp
next
  case (Suc n)
  show ?case
  proof (cases "n = 0")
    case True
    then show ?thesis by simp
  next
    case False
    with Suc have "((\<lambda>u. insert_table u k) ^^ n) t = insert_table t k" by simp
    then show ?thesis using insert_table_absorb [OF assms(1), of k] by simp
  qed
qed

lemma count_list_distinct: "distinct xs \<Longrightarrow> count_list xs x = (if x \<in> set xs then 1 else 0)"
  by (induction xs) auto

lemma Exists_build: "Exists (build cs) k \<longleftrightarrow> k \<noteq> [] \<and> k \<in> number ` set cs"
proof (cases "find (\<lambda>c. number c = k) cs")
  case None
  then have "k \<notin> number ` set cs" by (auto simp: find_None_iff)
  with None show ?thesis by (simp add: Exists_def Search_build Course_new_def)
next
  case (Some c)
  then have "number c = k" "c \<in> set cs" by (auto simp: find_Some_iff)
  with Some show ?thesis by (auto simp: Exists_def Search_build)
qed

lemma occupied_new: "occupied (PrereqHashTable_new cap) = []"
  by (simp add: occupied_def PrereqHashTable_new_def Prerequisite_empty_def num_Prerequisite_new)

lemma capacity_register_all: "wf_table t \<Longrightarrow> capacity (register_all t ks) = capacity t"
  by (induction ks rule: rev_induct)
     (simp_all add: register_all_def capacity_insert_table wf_register_all [unfolded register_all_def])

text \<open>
  As long as the keys fit, the table holds after a list of \<open>insert\<close>s what it held
  before and every key of the list.
\<close>

lemma occupied_register_all:
  assumes "table_inv t"
    and "\<forall>k \<in> set ks. load Prerequisite_new k \<noteq> Prerequisite_new"
    and "card (set (occupied t) \<union> load Prerequisite_new ` set ks) \<le> capacity t"
  shows "set (occupied (register_all t ks)) = set (occupied t) \<union> load Prerequisite_new ` set ks"
  using assms(2,3)
proof (induction ks rule: rev_induct)
  case Nil
  show ?case by (simp add: register_all_def)
next
  case (snoc k ks)
  let ?T = "register_all t ks"
  let ?p = "load Prerequisite_new k"
  from assms(1) have wf: "wf_table t" by (simp add: table_inv_def)
  have inv: "table_inv ?T" using assms(1) by (rule table_inv_register_all)
  then have wfT: "wf_table ?T" by (simp add: table_inv_def)
  have "set (occupied t) \<union> load Prerequisite_new ` set ks
        \<subseteq> set (occupied t) \<union> load Prerequisite_new ` set (ks @ [k])" by auto
  then have "card (set (occupied t) \<union> load Prerequisite_new ` set ks)
        \<le> card (set (occupied t) \<union> load Prerequisite_new ` set (ks @ [k]))"
    by (intro card_mono) simp_all
  with snoc.prems have IH: "set (occupied ?T) = set (occupied t) \<union> load Prerequisite_new ` set ks"
    by (intro snoc.IH) simp_all
  from snoc.prems(1) have nz: "?p \<noteq> Prerequisite_new" by simp
  have room: "holds ?T k \<or> length (occupied ?T) < capacity ?T"
  proof (cases "holds ?T k")
    case True
    then show ?thesis ..
  next
    case False
    then have notin: "?p \<notin> set (occupied ?T)" by (simp add: holds_def)
    have "length (occupied ?T) = card (set (occupied ?T))"
      using distinct_occupied [OF inv] by (simp add: distinct_card)
    also have "\<dots> < card (insert ?p (set (occupied ?T)))" using notin by simp
    also have "insert ?p (set (occupied ?T)) = set (occupied t) \<union> load Prerequisite_new ` set (ks @ [k])"
      using IH by auto
    also have "card \<dots> \<le> capacity t" using snoc.prems(2) .
    finally show ?thesis using capacity_register_all [OF wf, of ks] by simp
  qed
  from insert_table_holds [OF wfT nz room] IH show ?case
    by (auto simp: register_all_snoc)
qed

lemma clean_key:
  assumes "k \<noteq> []" "length k \<le> 7" "CHR 0x00 \<notin> set k"
  shows "getString (load Prerequisite_new k) = k" "load Prerequisite_new k \<noteq> Prerequisite_new"
proof -
  from assms(2) have t: "take 7 k = k" by simp
  show "getString (load Prerequisite_new k) = k"
    using assms(3) by (simp add: getString_load t takeWhile_neq_id)
  from assms(1) obtain c where "c \<in> set k" by (cases k) auto
  with assms(3) have "\<exists>c \<in> set (take 7 k). c \<noteq> CHR 0x00" unfolding t by metis
  then show "load Prerequisite_new k \<noteq> Prerequisite_new" by (auto simp: load_zero_iff)
qed

lemma parse_fresh:
  "parse line =
     (if length (key_field line) \<noteq> 7 then (Some MalformedKey, Course_new)
      else if title_field line = [] then (Some EmptyTitle, Course_new)
      else (None,
            \<lparr>number = key_field line, title = title_field line,
             prerequisites = prereq_fields
               (fst (getline (drop 1 (dropWhile (\<lambda>c. c \<noteq> CHR '','') line), False) [] CHR '',''))\<rparr>))"
  by (simp add: parse_def init_fresh read_prerequisites_eq)

lemma prerequisites_parse_nonempty: "[] \<notin> set (prerequisites (snd (parse line)))"
  by (simp add: parse_fresh prereq_fields_nonempty Course_new_def)

lemma registered_keys_nonempty: "[] \<notin> set (registered_keys lines)"
  by (auto simp: registered_keys_def courses_of_def prerequisites_parse_nonempty)

lemma parse_ok_iff: "fst (parse line) = None \<longleftrightarrow> length (key_field line) = 7 \<and> title_field line \<noteq> []"
  by (simp add: parse_fresh)

lemma number_parse: "fst (parse line) = None \<Longrightarrow> number (snd (parse line)) = key_field line"
  by (simp add: parse_fresh split: if_splits)

text \<open>A load, step by step: the parse of every line, then the validation pass.\<close>

lemma loadCourses_eq:
  assumes "wf_table (prereqTable d)" "\<forall>l \<in> set lines. fst (parse l) = None"
  shows "loadCourses d lines =
     (case find (\<lambda>c. \<not> Exists (build (courses_of lines)) c)
             (checked_keys (register_all (prereqTable d) (registered_keys lines))) of
        Some k \<Rightarrow> Inl (UnresolvedPrerequisite k)
      | None \<Rightarrow> Inr (\<lparr>tree = build (courses_of lines),
                       prereqTable = register_all (prereqTable d) (registered_keys lines)\<rparr>,
                      length lines))"
proof -
  let ?d' = "\<lparr>tree = build (courses_of lines),
             prereqTable = register_all (prereqTable d) (registered_keys lines)\<rparr>"
  have r: "read_lines (d\<lparr>tree := drain (tree d)\<rparr>) 0 lines = Inr (?d', length lines)"
    using assms(2) by (subst read_lines_Inr) (simp add: drain_def build_def)
  have "wf_table (prereqTable ?d')" using assms(1) by (simp add: wf_register_all)
  from checkPrerequisites_find [OF this]
  have "checkPrerequisites ?d' = find (\<lambda>c. \<not> Exists (build (courses_of lines)) c)
             (checked_keys (register_all (prereqTable d) (registered_keys lines)))" by simp
  then show ?thesis by (simp add: loadCourses_def r)
qed

text \<open>Twenty-seven different keys fill the table of a driver; a further key finds no slot.\<close>

lemma keys27_fill:
  "register_all (PrereqHashTable_new DEFAULT_PREREQUISITE_TABLE_SIZE) keys27 =
     \<lparr>len = 0, capacity = 27,
      items = map (load Prerequisite_new)
        [''CSCI100'', ''CSCI112'', ''CSCI124'', ''CSCI103'', ''CSCI115'', ''CSCI120'', ''CSCI106'',
         ''CSCI118'', ''CSCI111'', ''CSCI109'', ''CSCI123'', ''CSCI102'', ''CSCI114'', ''CSCI126'',
         ''CSCI105'', ''CSCI117'', ''CSCI110'', ''CSCI108'', ''CSCI122'', ''CSCI101'', ''CSCI113'',
         ''CSCI125'', ''CSCI104'', ''CSCI116'', ''CSCI121'', ''CSCI107'', ''CSCI119'']\<rparr>"
  by (simp add: register_all_def keys27_def table_simps)

lemma keys27_full:
  "insert_table (register_all (PrereqHashTable_new DEFAULT_PREREQUISITE_TABLE_SIZE) keys27) ''CSCI127''
     = register_all (PrereqHashTable_new DEFAULT_PREREQUISITE_TABLE_SIZE) keys27"
  unfolding keys27_fill by (simp add: table_simps)

lemma keys27_facts:
  "card (set keys27) = 27" "''CSCI127'' \<notin> set keys27"
  "\<forall>x \<in> set keys27. length x = 7 \<and> (\<exists>c \<in> set x. c \<noteq> CHR 0x00)"
  by (simp_all add: keys27_def)

lemma keys27_occupied:
  "length (occupied (register_all (PrereqHashTable_new DEFAULT_PREREQUISITE_TABLE_SIZE) keys27)) = 27"
  "capacity (register_all (PrereqHashTable_new DEFAULT_PREREQUISITE_TABLE_SIZE) keys27) = 27"
  "holds (register_all (PrereqHashTable_new DEFAULT_PREREQUISITE_TABLE_SIZE) keys27) ''CSCI100''"
  "\<not> holds (register_all (PrereqHashTable_new DEFAULT_PREREQUISITE_TABLE_SIZE) keys27) ''CSCI127''"
  unfolding keys27_fill by (simp_all add: holds_def occupied_def table_simps)

lemma Exists_store_CSCI100: "Exists store_CSCI100 c \<longleftrightarrow> c = ''CSCI100''"
  by (auto simp: store_CSCI100_def Exists_build)

section \<open>What the validation pass asks\<close>

lemma find_asked: "find (\<lambda>c. \<not> P c) (asked P xs) = find (\<lambda>c. \<not> P c) xs"
  by (induction xs) auto

lemma set_asked: "set (asked P xs) \<subseteq> set xs"
  by (induction xs) auto

lemma asked_all: "(\<And>x. x \<in> set xs \<Longrightarrow> P x) \<Longrightarrow> asked P xs = xs"
  by (induction xs) auto

lemma checkPrerequisites_queries_loop_eq:
  assumes "length (items (prereqTable d)) = capacity (prereqTable d)"
  shows "checkPrerequisites_queries_loop d i =
     asked (Exists (tree d))
       (map getString (filter (\<lambda>p. \<not> Prerequisite_empty p) (drop i (items (prereqTable d)))))"
proof (induction "capacity (prereqTable d) - i" arbitrary: i)
  case 0
  then show ?case using assms by (subst checkPrerequisites_queries_loop.simps) simp
next
  case (Suc n)
  then have lt: "i < length (items (prereqTable d))" using assms by simp
  then have dr: "drop i (items (prereqTable d)) =
      items (prereqTable d) ! i # drop (i + 1) (items (prereqTable d))"
    by (simp add: Cons_nth_drop_Suc)
  from Suc.hyps(2) have "n = capacity (prereqTable d) - (i + 1)" by simp
  from Suc.hyps(1) [OF this] lt assms show ?case
    by (subst checkPrerequisites_queries_loop.simps) (simp add: dr Let_def)
qed

text \<open>
  The pass asks the tree about the strings of the occupied slots, in array order, up to
  the first one that the tree denies.
\<close>

lemma checkPrerequisites_queries_eq:
  "wf_table (prereqTable d) \<Longrightarrow>
   checkPrerequisites_queries d = asked (Exists (tree d)) (checked_keys (prereqTable d))"
  by (simp add: checkPrerequisites_queries_def checkPrerequisites_queries_loop_eq wf_table_def
      checked_keys_def occupied_def)

text \<open>The verdict of the pass is the first query that the tree denies.\<close>

lemma checkPrerequisites_queries_verdict:
  "wf_table (prereqTable d) \<Longrightarrow>
   checkPrerequisites d = find (\<lambda>c. \<not> Exists (tree d) c) (checkPrerequisites_queries d)"
  by (simp add: checkPrerequisites_find checkPrerequisites_queries_eq find_asked)

lemma checkPrerequisites_queries_all:
  assumes "wf_table (prereqTable d)" "checkPrerequisites d = None"
  shows "checkPrerequisites_queries d = checked_keys (prereqTable d)"
proof -
  from assms have "\<forall>c \<in> set (checked_keys (prereqTable d)). Exists (tree d) c"
    by (auto simp: checkPrerequisites_find find_None_iff)
  then have "asked (Exists (tree d)) (checked_keys (prereqTable d)) = checked_keys (prereqTable d)"
    by (intro asked_all) simp
  with assms(1) show ?thesis by (simp add: checkPrerequisites_queries_eq)
qed

text \<open>An array whose string has seven characters is that string and a zero byte.\<close>

lemma getString_seven:
  assumes "valid_image p" "length (getString p) = 7"
  shows "p = getString p @ [CHR 0x00]"
proof -
  let ?tw = "takeWhile (\<lambda>c. c \<noteq> CHR 0x00) p" and ?dw = "dropWhile (\<lambda>c. c \<noteq> CHR 0x00) p"
  have p: "?tw @ ?dw = p" by simp
  from assms have tw: "length ?tw = 7" and lp: "length p = 8" and l7: "p ! 7 = CHR 0x00"
    by (simp_all add: getString_def valid_image_def)
  have "length ?tw + length ?dw = length p" by (metis p length_append)
  with tw lp have "length ?dw = 1" by simp
  then obtain c where dw: "?dw = [c]" by (cases ?dw) auto
  have "p ! 7 = (?tw @ ?dw) ! 7" by (simp only: p)
  also have "\<dots> = c" using tw dw by (simp add: nth_append)
  finally have "c = CHR 0x00" using l7 by simp
  with dw p show ?thesis by (simp add: getString_def)
qed

lemma distinct_asked_strings:
  assumes "distinct ps" "\<forall>p \<in> set ps. valid_image p" "\<And>s. P s \<Longrightarrow> length s = 7"
  shows "distinct (asked P (map getString ps))"
  using assms(1,2)
proof (induction ps)
  case Nil
  show ?case by simp
next
  case (Cons p ps)
  show ?case
  proof (cases "P (getString p)")
    case False
    then show ?thesis by simp
  next
    case True
    then have l: "length (getString p) = 7" by (rule assms(3))
    have "getString p \<notin> set (asked P (map getString ps))"
    proof
      assume "getString p \<in> set (asked P (map getString ps))"
      with set_asked [of P "map getString ps"] obtain q where q: "q \<in> set ps" "getString q = getString p"
        by auto
      with Cons.prems(2) l have "q = getString q @ [CHR 0x00]" by (intro getString_seven) simp_all
      moreover from Cons.prems(2) l have "p = getString p @ [CHR 0x00]"
        by (intro getString_seven) simp_all
      ultimately have "q = p" using q(2) by simp
      with q(1) Cons.prems(1) show False by simp
    qed
    with Cons True show ?thesis by simp
  qed
qed

text \<open>
  Against a tree whose keys all have seven characters, the pass asks about no string
  twice.
\<close>

lemma distinct_checkPrerequisites_queries:
  assumes "table_inv (prereqTable d)" "\<And>c. Exists (tree d) c \<Longrightarrow> length c = 7"
  shows "distinct (checkPrerequisites_queries d)"
proof -
  from assms(1) have wf: "wf_table (prereqTable d)" by (simp add: table_inv_def)
  have "\<forall>p \<in> set (occupied (prereqTable d)). valid_image p"
    using wf by (auto simp: set_occupied wf_table_def)
  with distinct_occupied [OF assms(1)] assms(2)
  have "distinct (asked (Exists (tree d)) (map getString (occupied (prereqTable d))))"
    by (intro distinct_asked_strings) simp_all
  then show ?thesis by (simp add: checkPrerequisites_queries_eq [OF wf] checked_keys_def)
qed

section \<open>A full table\<close>

lemma length_occupied_le: "wf_table t \<Longrightarrow> length (occupied t) \<le> capacity t"
  using length_filter_le [of "\<lambda>p. \<not> Prerequisite_empty p" "items t"]
  by (simp add: occupied_def wf_table_def)

lemma full_no_free_slot:
  assumes "wf_table t" "length (occupied t) = capacity t"
  shows "Prerequisite_new \<notin> set (items t)"
proof
  assume "Prerequisite_new \<in> set (items t)"
  moreover have "Prerequisite_empty Prerequisite_new"
    by (simp add: Prerequisite_empty_def num_Prerequisite_new)
  ultimately have "length (filter (\<lambda>p. \<not> Prerequisite_empty p) (items t)) < length (items t)"
    by (intro length_filter_less) simp_all
  with assms show False by (simp add: occupied_def wf_table_def)
qed

text \<open>
  In a table without a free slot, \<open>insert\<close> of a key that is not there runs through
  all the slots and changes nothing.
\<close>

lemma insert_table_full:
  assumes wf: "wf_table t" and full: "length (occupied t) = capacity t" and nh: "\<not> holds t k"
  shows "insert_table t k = t"
proof -
  define p where "p = load Prerequisite_new k"
  have vp: "valid_image p" unfolding p_def by (rule valid_load)
  have capb: "capacity t < 2 ^ 32" and len: "length (items t) = capacity t"
    using wf by (simp_all add: wf_table_def)
  have nz: "Prerequisite_new \<notin> set (items t)" using wf full by (rule full_no_free_slot)
  have np: "p \<notin> set (items t)"
  proof
    assume "p \<in> set (items t)"
    moreover from this nz have "p \<noteq> Prerequisite_new" by auto
    ultimately have "holds t k" using holds_iff [OF wf, of k] by (simp add: p_def)
    with nh show False ..
  qed
  have "passes t p 0 (capacity t)"
    unfolding passes_def
  proof (intro allI impI)
    fix j assume "0 \<le> j \<and> j < capacity t"
    then have "slot p (capacity t) j < length (items t)" using vp capb len by (simp add: slot_less)
    then have "items t ! slot p (capacity t) j \<in> set (items t)" by (rule nth_mem)
    with nz np show "items t ! slot p (capacity t) j \<noteq> p \<and>
        items t ! slot p (capacity t) j \<noteq> Prerequisite_new" by metis
  qed
  with wf vp have "insert_loop t p 0 = t" by (rule insert_loop_full)
  then show ?thesis by (simp add: insert_table_def p_def)
qed

lemma occupied_register_all_subset:
  "wf_table t \<Longrightarrow>
   set (occupied (register_all t ks)) \<subseteq> set (occupied t) \<union> load Prerequisite_new ` set ks"
proof (induction ks rule: rev_induct)
  case Nil
  show ?case by (simp add: register_all_def)
next
  case (snoc k ks)
  from occupied_insert [OF wf_register_all [OF snoc.prems], of ks k] snoc
  show ?case by (auto simp: register_all_snoc)
qed

text \<open>
  A list of \<open>insert\<close>s either gets every key into the table or fills the table.
\<close>

lemma register_all_fills:
  assumes "table_inv t" "\<forall>k \<in> set ks. load Prerequisite_new k \<noteq> Prerequisite_new"
  shows "set (occupied (register_all t ks)) = set (occupied t) \<union> load Prerequisite_new ` set ks \<or>
         length (occupied (register_all t ks)) = capacity t"
  using assms(2)
proof (induction ks rule: rev_induct)
  case Nil
  show ?case by (simp add: register_all_def)
next
  case (snoc k ks)
  let ?T = "register_all t ks"
  from assms(1) have wf: "wf_table t" by (simp add: table_inv_def)
  have inv: "table_inv ?T" using assms(1) by (rule table_inv_register_all)
  then have wfT: "wf_table ?T" by (simp add: table_inv_def)
  have cap: "capacity ?T = capacity t" using wf by (rule capacity_register_all)
  from snoc.prems have nz: "load Prerequisite_new k \<noteq> Prerequisite_new" by simp
  show ?case
  proof (cases "holds ?T k \<or> length (occupied ?T) < capacity ?T")
    case True
    show ?thesis
    proof (cases "length (occupied ?T) = capacity t")
      case full: True
      with True cap have "holds ?T k" by simp
      then have "insert_table ?T k = ?T" using inv by (intro insert_table_held)
      with full show ?thesis by (simp add: register_all_snoc)
    next
      case False
      with snoc have "set (occupied ?T) = set (occupied t) \<union> load Prerequisite_new ` set ks"
        by simp
      with insert_table_holds [OF wfT nz True] show ?thesis
        by (auto simp: register_all_snoc)
    qed
  next
    case False
    then have nh: "\<not> holds ?T k" and "\<not> length (occupied ?T) < capacity ?T" by simp_all
    with length_occupied_le [OF wfT] have full: "length (occupied ?T) = capacity ?T" by simp
    from insert_table_full [OF wfT full nh] full cap show ?thesis
      by (simp add: register_all_snoc)
  qed
qed

lemma load_seven: "length k = 7 \<Longrightarrow> load Prerequisite_new k = k @ [CHR 0x00]"
  by (simp add: load_def Prerequisite_new_def)

lemma load_seven_inj:
  "length x = 7 \<Longrightarrow> length y = 7 \<Longrightarrow> load Prerequisite_new x = load Prerequisite_new y \<Longrightarrow> x = y"
  by (simp add: load_seven)

text \<open>
  Once as many different 7-character keys are registered as the table has slots, a
  further key is left out.
\<close>

lemma register_all_leaves_out:
  assumes cap: "cap < 2 ^ 32"
    and keys: "\<forall>x \<in> set ks. length x = 7 \<and> (\<exists>c \<in> set x. c \<noteq> CHR 0x00)"
    and many: "cap \<le> card (set ks)"
    and k: "length k = 7" "k \<notin> set ks"
  shows "insert_table (register_all (PrereqHashTable_new cap) ks) k
           = register_all (PrereqHashTable_new cap) ks"
    and "\<not> holds (insert_table (register_all (PrereqHashTable_new cap) ks) k) k"
proof -
  let ?t = "PrereqHashTable_new cap"
  let ?T = "register_all ?t ks"
  have inv: "table_inv ?t" using cap by (rule table_inv_new)
  then have wf: "wf_table ?t" by (simp add: table_inv_def)
  have invT: "table_inv ?T" using inv by (rule table_inv_register_all)
  then have wfT: "wf_table ?T" by (simp add: table_inv_def)
  have capT: "capacity ?T = cap" using capacity_register_all [OF wf, of ks] by (simp add: capacity_new)
  have nz: "\<forall>x \<in> set ks. load Prerequisite_new x \<noteq> Prerequisite_new"
  proof
    fix x assume "x \<in> set ks"
    with keys have "length x = 7" "\<exists>c \<in> set x. c \<noteq> CHR 0x00" by auto
    then have "\<exists>c \<in> set (take 7 x). c \<noteq> CHR 0x00" by simp
    then show "load Prerequisite_new x \<noteq> Prerequisite_new" by (auto simp: load_zero_iff)
  qed
  have inj: "inj_on (load Prerequisite_new) (set ks)"
    using keys by (auto intro!: inj_onI dest: load_seven_inj)
  then have card: "card (load Prerequisite_new ` set ks) = card (set ks)" by (rule card_image)
  have full: "length (occupied ?T) = capacity ?T"
  proof -
    from register_all_fills [OF inv nz]
    consider "set (occupied ?T) = load Prerequisite_new ` set ks" | "length (occupied ?T) = cap"
      by (auto simp: occupied_new capacity_new)
    then show ?thesis
    proof cases
      case 1
      have "length (occupied ?T) = card (set (occupied ?T))"
        using distinct_occupied [OF invT] by (simp add: distinct_card)
      with 1 card many have "cap \<le> length (occupied ?T)" by simp
      with length_occupied_le [OF wfT] capT show ?thesis by simp
    next
      case 2
      with capT show ?thesis by simp
    qed
  qed
  have nh: "\<not> holds ?T k"
  proof
    assume "holds ?T k"
    then have "load Prerequisite_new k \<in> set (occupied ?T)" by (simp add: holds_def)
    with occupied_register_all_subset [OF wf, of ks]
    have "load Prerequisite_new k \<in> load Prerequisite_new ` set ks" by (auto simp: occupied_new)
    then obtain x where "x \<in> set ks" "load Prerequisite_new x = load Prerequisite_new k" by auto
    with keys k(1) have "x = k" by (auto dest: load_seven_inj)
    with \<open>x \<in> set ks\<close> k(2) show False by simp
  qed
  from insert_table_full [OF wfT full nh]
  show "insert_table ?T k = ?T" .
  with nh show "\<not> holds (insert_table ?T k) k" by simp
qed





text \<open>
  Where the validation pass does what its name says: for a load that starts with an
  empty table, whose lines all parse, whose prerequisite fields have at most seven
  characters and no zero byte, and are no more different keys than the table has
  slots, the keys the pass reads are the keys the load registered, and the load ends
  with an unresolved prerequisite exactly when one of them is the key of no course.
\<close>

lemma loadCourses_unresolved_iff:
  assumes fresh: "prereqTable d = PrereqHashTable_new cap" and cap: "cap < 2 ^ 32"
    and parsed: "\<forall>l \<in> set lines. length (key_field l) = 7 \<and> title_field l \<noteq> []"
    and clean: "\<forall>k \<in> set (registered_keys lines). length k \<le> 7 \<and> CHR 0x00 \<notin> set k"
    and room: "card (set (registered_keys lines)) \<le> cap"
  shows
    "loadCourses d lines =
       (case find (\<lambda>k. \<not> Exists (build (courses_of lines)) k)
               (checked_keys (register_all (prereqTable d) (registered_keys lines))) of
          Some k \<Rightarrow> Inl (UnresolvedPrerequisite k)
        | None \<Rightarrow> Inr (\<lparr>tree = build (courses_of lines),
                         prereqTable = register_all (prereqTable d) (registered_keys lines)\<rparr>,
                        length lines)) \<and>
     set (checked_keys (register_all (prereqTable d) (registered_keys lines)))
       = set (registered_keys lines) \<and>
     ((\<exists>k. loadCourses d lines = Inl (UnresolvedPrerequisite k)) \<longleftrightarrow>
        (\<exists>k \<in> set (registered_keys lines). k \<notin> number ` set (courses_of lines))) \<and>
     (\<forall>k. loadCourses d lines = Inl (UnresolvedPrerequisite k) \<longrightarrow>
        k \<in> set (registered_keys lines) \<and> k \<notin> number ` set (courses_of lines)) \<and>
     ((\<forall>k \<in> set (registered_keys lines). k \<in> number ` set (courses_of lines)) \<longrightarrow>
        (\<exists>d'. loadCourses d lines = Inr (d', length lines)))"
proof -
  let ?ks = "registered_keys lines"
  let ?T = "register_all (prereqTable d) ?ks"
  let ?tr = "build (courses_of lines)"
  have inv: "table_inv (prereqTable d)" unfolding fresh using cap by (rule table_inv_new)
  then have wf: "wf_table (prereqTable d)" by (simp add: table_inv_def)
  have ok: "\<forall>l \<in> set lines. fst (parse l) = None" using parsed by (simp add: parse_ok_iff)
  have ck: "getString (load Prerequisite_new k) = k" "load Prerequisite_new k \<noteq> Prerequisite_new"
    if "k \<in> set ?ks" for k
  proof -
    from that registered_keys_nonempty [of lines] have "k \<noteq> []" by auto
    moreover from that clean have "length k \<le> 7" "CHR 0x00 \<notin> set k" by auto
    ultimately show "getString (load Prerequisite_new k) = k"
      "load Prerequisite_new k \<noteq> Prerequisite_new" by (rule clean_key)+
  qed
  have "card (load Prerequisite_new ` set ?ks) \<le> card (set ?ks)" by (rule card_image_le) simp
  with room have "card (set (occupied (prereqTable d)) \<union> load Prerequisite_new ` set ?ks)
      \<le> capacity (prereqTable d)"
    by (simp add: fresh occupied_new capacity_new)
  with inv ck(2) have "set (occupied ?T) = set (occupied (prereqTable d)) \<union> load Prerequisite_new ` set ?ks"
    by (intro occupied_register_all) simp_all
  then have occ: "set (occupied ?T) = load Prerequisite_new ` set ?ks"
    by (simp add: fresh occupied_new)
  have keys: "set (checked_keys ?T) = set ?ks"
  proof -
    have "set (checked_keys ?T) = (\<lambda>k. getString (load Prerequisite_new k)) ` set ?ks"
      by (simp add: checked_keys_def occ image_image)
    also have "\<dots> = set ?ks" using ck(1) by (auto simp: image_iff)
    finally show ?thesis .
  qed
  have ex: "\<not> Exists ?tr k \<longleftrightarrow> k \<notin> number ` set (courses_of lines)" if "k \<in> set ?ks" for k
    using that registered_keys_nonempty [of lines] by (auto simp: Exists_build)
  note eq = loadCourses_eq [OF wf ok]
  have fails: "k \<in> set ?ks \<and> k \<notin> number ` set (courses_of lines)"
    if "loadCourses d lines = Inl (UnresolvedPrerequisite k)" for k
  proof -
    from that eq have "find (\<lambda>k. \<not> Exists ?tr k) (checked_keys ?T) = Some k"
      by (simp split: option.splits)
    then have "k \<in> set (checked_keys ?T)" "\<not> Exists ?tr k"
      by (auto simp: find_Some_iff)
    with keys ex show ?thesis by auto
  qed
  have unresolved: "\<exists>k. loadCourses d lines = Inl (UnresolvedPrerequisite k)"
    if "\<exists>k \<in> set ?ks. k \<notin> number ` set (courses_of lines)"
  proof -
    from that keys ex have "\<exists>k \<in> set (checked_keys ?T). \<not> Exists ?tr k" by auto
    then have "find (\<lambda>k. \<not> Exists ?tr k) (checked_keys ?T) \<noteq> None"
      by (auto simp: find_None_iff)
    then show ?thesis using eq by (auto split: option.splits)
  qed
  have ready: "\<exists>d'. loadCourses d lines = Inr (d', length lines)"
    if "\<forall>k \<in> set ?ks. k \<in> number ` set (courses_of lines)"
  proof -
    from that keys ex have "\<forall>k \<in> set (checked_keys ?T). Exists ?tr k" by auto
    then have "find (\<lambda>k. \<not> Exists ?tr k) (checked_keys ?T) = None"
      by (auto simp: find_None_iff)
    then show ?thesis using eq by simp
  qed
  from eq keys fails unresolved ready show ?thesis by blast
qed

text \<open>The keys of a tree that a load built all have seven characters.\<close>

lemma Exists_loaded_seven:
  assumes "\<forall>l \<in> set lines. fst (parse l) = None" and "Exists (build (courses_of lines)) c"
  shows "length c = 7"
proof -
  from assms(2) have "c \<in> number ` set (courses_of lines)" by (simp add: Exists_build)
  then obtain l where l: "l \<in> set lines" "c = number (snd (parse l))"
    by (auto simp: courses_of_def)
  with assms(1) have ok: "fst (parse l) = None" by simp
  then have "length (key_field l) = 7" by (simp add: parse_ok_iff)
  with l(2) number_parse [OF ok] show ?thesis by simp
qed

section \<open>Claims about the ordered course store\<close>

text \<open>
  C1. For course records with pairwise distinct keys, inserted in any order (\<open>cs'\<close> is
  any permutation of \<open>cs\<close>), the in-order enumeration of the store lists exactly the
  inserted records, with keys strictly increasing in the lexicographic order of strings.
\<close>

theorem C1_inorder_strictly_increasing:
  assumes "distinct (map number cs)" and "mset cs' = mset cs"
  shows "sorted_wrt (<) (map number (inOrder (build cs'))) \<and>
         mset (inOrder (build cs')) = mset cs"
proof -
  have "mset (map number (inOrder (build cs'))) = mset (map number cs)"
    using assms(2) by (metis mset_inOrder_build mset_map)
  then have "distinct (map number (inOrder (build cs')))"
    using assms(1) by (metis mset_eq_imp_distinct_iff)
  moreover have "sorted (map number (inOrder (build cs')))"
    by (rule bst_sorted [OF bst_build])
  ultimately show ?thesis
    using assms(2) by (simp add: strict_sorted_iff mset_inOrder_build)
qed

theorem C1_witness:
  "distinct (map number catalog3) \<and> mset (rev catalog3) = mset catalog3 \<and>
   map number (inOrder (build (rev catalog3))) = [''CSCI100'', ''CSCI200'', ''MATH201''] \<and>
   sorted_wrt (<) (map number (inOrder (build (rev catalog3))))"
proof -
  have d: "distinct (map number catalog3)" by (simp add: catalog3_def)
  have m: "mset (rev catalog3) = mset catalog3" by simp
  have e: "map number (inOrder (build (rev catalog3))) = [''CSCI100'', ''CSCI200'', ''MATH201'']"
    by (simp add: catalog3_def build_def Insert_def)
  from C1_inorder_strictly_increasing [OF d m] d m e show ?thesis by simp
qed

text \<open>
  C2. For course records with pairwise distinct keys, \<open>Search\<close> with the key of an
  inserted record returns that record (key, title and prerequisites); with a key that
  was never inserted it returns the empty record, and \<open>Exists\<close> is false.
\<close>

theorem C2_search_returns_inserted_record:
  assumes "distinct (map number cs)"
  shows "(\<forall>c \<in> set cs. Search (build cs) (number c) = c) \<and>
         (\<forall>k. k \<notin> number ` set cs \<longrightarrow>
              Search (build cs) k = Course_new \<and> \<not> Exists (build cs) k)"
proof (intro conjI ballI allI impI)
  fix c assume "c \<in> set cs"
  with assms have "find (\<lambda>x. number x = number c) cs = Some c"
  proof (induction cs)
    case Nil
    then show ?case by simp
  next
    case (Cons x xs)
    then show ?case by (cases "x = c") (auto simp: image_iff)
  qed
  then show "Search (build cs) (number c) = c" by (simp add: Search_build)
next
  fix k assume "k \<notin> number ` set cs"
  then have "find (\<lambda>x. number x = k) cs = None" by (auto simp: find_None_iff)
  then show "Search (build cs) k = Course_new" by (simp add: Search_build)
  then show "\<not> Exists (build cs) k" by (simp add: Exists_def Course_new_def)
qed

theorem C2_witness:
  "distinct (map number catalog3) \<and>
   Search (build catalog3) ''CSCI200''
     = \<lparr>number = ''CSCI200'', title = ''Data Structures'', prerequisites = [''CSCI100'']\<rparr> \<and>
   Search (build catalog3) ''CSCI999'' = Course_new \<and>
   \<not> Exists (build catalog3) ''CSCI999''"
proof -
  have d: "distinct (map number catalog3)" by (simp add: catalog3_def)
  have i: "\<lparr>number = ''CSCI200'', title = ''Data Structures'', prerequisites = [''CSCI100'']\<rparr>
        \<in> set catalog3" by (simp add: catalog3_def)
  have n: "''CSCI999'' \<notin> number ` set catalog3" by (simp add: catalog3_def)
  from C2_search_returns_inserted_record [OF d] i n d show ?thesis by fastforce
qed

text \<open>
  C9, as stated, fails: the claim has the later record unfindable in exactly one of the
  two insertion orders. With two different records under the key \<open>CSCI100\<close>, the
  search returns the record inserted first in either order, so the later record is
  the one that is never returned in both orders.
\<close>

theorem C9_counterexample:
  "number dup_a = number dup_b \<and> dup_a \<noteq> dup_b \<and>
   Search (build [dup_a, dup_b]) (number dup_b) = dup_a \<and>
   Search (build [dup_b, dup_a]) (number dup_a) = dup_b"
  by (simp add: dup_a_def dup_b_def build_def Insert_def)

text \<open>
  C9, amended. A record \<open>b\<close> whose key equals the key of a stored record \<open>a\<close> is added
  to the right of the equal key: it is neither rejected nor merged, and nothing is
  overwritten, so the enumeration lists both. Every search returns what it returned
  before the insertion. For the two records alone, in both insertion orders the search
  for the key returns the record inserted first; each record is the hidden one in
  the order in which it comes second.
\<close>

theorem C9_duplicate_key_hidden:
  assumes "a \<in> set cs" and "number b = number a"
  shows "mset (inOrder (Insert (build cs) b)) = add_mset b (mset cs) \<and>
         (\<forall>k. Search (Insert (build cs) b) k = Search (build cs) k) \<and>
         inOrder (build [a, b]) = [a, b] \<and> inOrder (build [b, a]) = [b, a] \<and>
         Search (build [a, b]) (number a) = a \<and> Search (build [b, a]) (number a) = b"
proof -
  have "Search (Insert (build cs) b) k = Search (build cs) k" for k
  proof (cases "find (\<lambda>c. number c = k) cs")
    case None
    with assms have "number b \<noteq> k" by (auto simp: find_None_iff)
    with None show ?thesis by (simp add: build_snoc [symmetric] Search_build find_snoc)
  next
    case (Some c)
    then show ?thesis by (simp add: build_snoc [symmetric] Search_build find_snoc)
  qed
  moreover have "mset (inOrder (Insert (build cs) b)) = add_mset b (mset cs)"
    by (simp add: mset_inOrder_Insert mset_inOrder_build)
  moreover have "inOrder (build [a, b]) = [a, b]" "inOrder (build [b, a]) = [b, a]"
    "Search (build [a, b]) (number a) = a" "Search (build [b, a]) (number a) = b"
    using assms(2) by (simp_all add: build_def Insert_def)
  ultimately show ?thesis by blast
qed

theorem C9_witness:
  "dup_a \<in> set [dup_a] \<and> number dup_b = number dup_a \<and>
   inOrder (Insert (build [dup_a]) dup_b) = [dup_a, dup_b] \<and>
   Search (Insert (build [dup_a]) dup_b) ''CSCI100'' = dup_a \<and>
   Search (build [dup_b, dup_a]) ''CSCI100'' = dup_b"
proof -
  have n: "number dup_b = number dup_a" by (simp add: dup_a_def dup_b_def)
  have i: "dup_a \<in> set [dup_a]" by simp
  have e: "inOrder (Insert (build [dup_a]) dup_b) = [dup_a, dup_b]"
    by (simp add: build_def Insert_def dup_a_def dup_b_def)
  have s: "Search (build [dup_a]) ''CSCI100'' = dup_a"
    by (simp add: build_def Insert_def dup_a_def)
  have na: "number dup_a = ''CSCI100''" by (simp add: dup_a_def)
  from C9_duplicate_key_hidden [OF i n] n i e s na show ?thesis by metis
qed

section \<open>Claims about the prerequisite reference set\<close>



text \<open>
  C4, as stated, fails: the claim holds "regardless of how many distinct keys have
  previously been registered". The table of a driver has 27 slots and never grows.
  After 27 different course numbers, \<open>insert\<close> of the 7-character key \<open>CSCI127\<close> runs
  through all the slots, finds neither the key nor an empty slot, and returns with the
  key not in the table.
\<close>

theorem C4_counterexample:
  "length ''CSCI127'' = 7 \<and>
   \<not> holds (insert_table
              (register_all (PrereqHashTable_new DEFAULT_PREREQUISITE_TABLE_SIZE) keys27)
              ''CSCI127'') ''CSCI127''"
  unfolding keys27_full unfolding keys27_fill
  by (simp add: holds_def occupied_def table_simps)

text \<open>
  C4, amended. On a table built by the constructor and \<open>insert\<close>, for a key with a
  non-zero character among its first seven (every alphanumeric 7-character key): after
  \<open>insert\<close> the key is in the table exactly when the table held it already or had a
  slot left. It was a no-op if the key was there, and the key is all that was added. In
  a table without a free slot, \<open>insert\<close> of a key that is not there changes nothing.
  That is the state of a table of \<open>cap\<close> slots once \<open>cap\<close> or more different
  7-character keys, each with a non-zero character, have been registered: a further
  7-character key is left out.
\<close>

theorem C4_register_room_or_full:
  assumes "table_inv t" and "\<exists>c \<in> set (take 7 k). c \<noteq> CHR 0x00"
  shows "(holds (insert_table t k) k \<longleftrightarrow> holds t k \<or> length (occupied t) < capacity t) \<and>
         (holds t k \<longrightarrow> insert_table t k = t) \<and>
         (holds t k \<or> length (occupied t) < capacity t \<longrightarrow>
            set (occupied (insert_table t k)) = insert (load Prerequisite_new k) (set (occupied t))) \<and>
         (\<not> holds t k \<and> length (occupied t) = capacity t \<longrightarrow> insert_table t k = t) \<and>
         (cap < 2 ^ 32 \<and> (\<forall>x \<in> set ks. length x = 7 \<and> (\<exists>c \<in> set x. c \<noteq> CHR 0x00)) \<and>
          cap \<le> card (set ks) \<and> length k' = 7 \<and> k' \<notin> set ks \<longrightarrow>
            insert_table (register_all (PrereqHashTable_new cap) ks) k'
              = register_all (PrereqHashTable_new cap) ks \<and>
            \<not> holds (insert_table (register_all (PrereqHashTable_new cap) ks) k') k')"
proof -
  from assms(1) have wf: "wf_table t" by (simp add: table_inv_def)
  from assms(2) have nz: "load Prerequisite_new k \<noteq> Prerequisite_new"
    by (auto simp: load_zero_iff)
  have room: "holds (insert_table t k) k \<and>
      set (occupied (insert_table t k)) = insert (load Prerequisite_new k) (set (occupied t))"
    if "holds t k \<or> length (occupied t) < capacity t"
    using insert_table_holds [OF wf nz that] .
  have full: "insert_table t k = t" if "\<not> holds t k" "length (occupied t) = capacity t"
    using insert_table_full [OF wf that(2,1)] .
  have out: "holds t k \<or> length (occupied t) < capacity t" if "holds (insert_table t k) k"
  proof (rule ccontr)
    assume "\<not> (holds t k \<or> length (occupied t) < capacity t)"
    with length_occupied_le [OF wf] have "\<not> holds t k" "length (occupied t) = capacity t" by auto
    with full that show False by simp
  qed
  have held: "insert_table t k = t" if "holds t k"
    using insert_table_held [OF assms(1) that] .
  from room full out held
    register_all_leaves_out [of cap ks k']
  show ?thesis by blast
qed

theorem C4_witness:
  "table_inv (insert_table (PrereqHashTable_new 27) ''CSCI100'') \<and>
   length (occupied (insert_table (PrereqHashTable_new 27) ''CSCI100'')) = 1 \<and>
   holds (insert_table (insert_table (PrereqHashTable_new 27) ''CSCI100'') ''CSCI101'') ''CSCI101'' \<and>
   insert_table (insert_table (PrereqHashTable_new 27) ''CSCI100'') ''CSCI100''
     = insert_table (PrereqHashTable_new 27) ''CSCI100'' \<and>
   card (set keys27) = 27 \<and> length ''CSCI127'' = 7 \<and> ''CSCI127'' \<notin> set keys27 \<and>
   \<not> holds (insert_table (register_all (PrereqHashTable_new 27) keys27) ''CSCI127'') ''CSCI127'' \<and>
   length (occupied (register_all (PrereqHashTable_new DEFAULT_PREREQUISITE_TABLE_SIZE) keys27))
     = capacity (register_all (PrereqHashTable_new DEFAULT_PREREQUISITE_TABLE_SIZE) keys27) \<and>
   insert_table (register_all (PrereqHashTable_new DEFAULT_PREREQUISITE_TABLE_SIZE) keys27) ''CSCI127''
     = register_all (PrereqHashTable_new DEFAULT_PREREQUISITE_TABLE_SIZE) keys27"
proof -
  let ?t = "insert_table (PrereqHashTable_new 27) ''CSCI100''"
  let ?T = "register_all (PrereqHashTable_new DEFAULT_PREREQUISITE_TABLE_SIZE) keys27"
  have aT: "table_inv ?T"
    by (intro table_inv_register_all table_inv_new) (simp add: DEFAULT_PREREQUISITE_TABLE_SIZE_def)
  have c7: "\<exists>c \<in> set (take 7 ''CSCI127''). c \<noteq> CHR 0x00" by simp
  have h4: "\<not> holds ?T ''CSCI127'' \<and> length (occupied ?T) = capacity ?T"
    by (simp add: keys27_occupied)
  note F = C4_register_room_or_full [OF aT c7, THEN conjunct2, THEN conjunct2, THEN conjunct2,
      THEN conjunct1, THEN mp, OF h4]
  have a: "table_inv ?t" by (intro table_inv_insert table_inv_new) simp
  have b: "length (occupied ?t) = 1" "capacity ?t = 27" "holds ?t ''CSCI100''"
    by (simp_all add: occupied_def holds_def table_simps)
  have c1: "\<exists>c \<in> set (take 7 ''CSCI101''). c \<noteq> CHR 0x00" by simp
  have c0: "\<exists>c \<in> set (take 7 ''CSCI100''). c \<noteq> CHR 0x00" by simp
  from C4_register_room_or_full [OF a c1] b
  have r1: "holds (insert_table ?t ''CSCI101'') ''CSCI101''" by simp
  from C4_register_room_or_full [OF a c0] b
  have r2: "insert_table ?t ''CSCI100'' = ?t" by simp
  have "(27::nat) < 2 ^ 32" "27 \<le> card (set keys27)" "length ''CSCI127'' = 7"
    by (simp_all add: keys27_facts)
  with C4_register_room_or_full [OF a c1, of 27 keys27 "''CSCI127''"] keys27_facts(2,3)
  have r3: "\<not> holds (insert_table (register_all (PrereqHashTable_new 27) keys27) ''CSCI127'') ''CSCI127''"
    by blast
  from a b(1) r1 r2 r3 keys27_facts(1,2) h4 F show ?thesis by simp
qed

text \<open>
  C6, as stated, fails: the claim has exactly one entry for a key registered \<open>N\<close>
  times. In a table whose 27 slots are taken by other keys, registering \<open>CSCI127\<close>
  three times leaves no entry for it.
\<close>

theorem C6_counterexample:
  "count_list
     (occupied (((\<lambda>u. insert_table u ''CSCI127'') ^^ 3)
        (register_all (PrereqHashTable_new DEFAULT_PREREQUISITE_TABLE_SIZE) keys27)))
     (load Prerequisite_new ''CSCI127'') = 0"
  unfolding numeral_3_eq_3 funpow.simps o_def id_def keys27_full
  unfolding keys27_fill
  by (simp add: occupied_def table_simps)

text \<open>
  C6, amended. On a table built by the constructor and \<open>insert\<close>, registering a key
  \<open>n \<ge> 1\<close> times gives the table that registering it once gives. No two occupied
  slots of it are equal, so the key has at most one entry: exactly one if it has a
  non-zero character among its first seven and the table held it already or had a slot
  left, and none if the table did not hold it and every slot was taken. The validation
  pass asks the tree about the occupied slots in array order, up to the first one the
  tree does not know, which is its verdict. Against a tree whose keys all have seven
  characters it asks about no string twice; about a key of seven characters without a
  zero byte it asks exactly once when the key was registered with room or held and the
  pass runs to its end, and never when the full table left the key out. The tree that a
  load has built from lines that all parse is such a tree.
\<close>

theorem C6_no_key_twice:
  assumes "table_inv t" and "0 < n"
  shows "((\<lambda>u. insert_table u k) ^^ n) t = insert_table t k \<and>
         distinct (occupied (insert_table t k)) \<and>
         count_list (occupied (insert_table t k)) (load Prerequisite_new k) \<le> 1 \<and>
         ((\<exists>c \<in> set (take 7 k). c \<noteq> CHR 0x00) \<and>
          (holds t k \<or> length (occupied t) < capacity t) \<longrightarrow>
            count_list (occupied (insert_table t k)) (load Prerequisite_new k) = 1) \<and>
         (\<not> holds t k \<and> length (occupied t) = capacity t \<longrightarrow>
            count_list (occupied (insert_table t k)) (load Prerequisite_new k) = 0) \<and>
         checkPrerequisites \<lparr>tree = tr, prereqTable = insert_table t k\<rparr> =
           find (\<lambda>c. \<not> Exists tr c)
             (checkPrerequisites_queries \<lparr>tree = tr, prereqTable = insert_table t k\<rparr>) \<and>
         checkPrerequisites_queries \<lparr>tree = tr, prereqTable = insert_table t k\<rparr> =
           asked (Exists tr) (map getString (occupied (insert_table t k))) \<and>
         ((\<forall>c. Exists tr c \<longrightarrow> length c = 7) \<longrightarrow>
            distinct (checkPrerequisites_queries \<lparr>tree = tr, prereqTable = insert_table t k\<rparr>) \<and>
            count_list (checkPrerequisites_queries \<lparr>tree = tr, prereqTable = insert_table t k\<rparr>) k
              \<le> 1 \<and>
            (length k = 7 \<and> CHR 0x00 \<notin> set k \<and>
             (holds t k \<or> length (occupied t) < capacity t) \<and>
             checkPrerequisites \<lparr>tree = tr, prereqTable = insert_table t k\<rparr> = None \<longrightarrow>
               count_list (checkPrerequisites_queries \<lparr>tree = tr, prereqTable = insert_table t k\<rparr>) k
                 = 1) \<and>
            (length k = 7 \<and> \<not> holds t k \<and> length (occupied t) = capacity t \<longrightarrow>
               count_list (checkPrerequisites_queries \<lparr>tree = tr, prereqTable = insert_table t k\<rparr>) k
                 = 0)) \<and>
         ((\<forall>l \<in> set lines. fst (parse l) = None) \<longrightarrow>
            distinct (checkPrerequisites_queries
              \<lparr>tree = build (courses_of lines), prereqTable = insert_table t k\<rparr>))"
proof -
  let ?T = "insert_table t k"
  let ?D = "\<lparr>tree = tr, prereqTable = ?T\<rparr>"
  let ?p = "load Prerequisite_new k"
  from assms(1) have wf: "wf_table t" by (simp add: table_inv_def)
  have inv': "table_inv ?T" using assms(1) by (rule table_inv_insert)
  then have wf': "wf_table (prereqTable ?D)" by (simp add: table_inv_def)
  have d: "distinct (occupied ?T)" using inv' by (rule distinct_occupied)
  have one: "(\<exists>c \<in> set (take 7 k). c \<noteq> CHR 0x00) \<and>
          (holds t k \<or> length (occupied t) < capacity t) \<longrightarrow>
            count_list (occupied ?T) ?p = 1"
  proof
    assume a: "(\<exists>c \<in> set (take 7 k). c \<noteq> CHR 0x00) \<and>
          (holds t k \<or> length (occupied t) < capacity t)"
    then have "?p \<noteq> Prerequisite_new" by (auto simp: load_zero_iff)
    from insert_table_holds [OF wf this] a
    have "?p \<in> set (occupied ?T)" by (simp add: holds_def)
    with d show "count_list (occupied ?T) ?p = 1" by (simp add: count_list_distinct)
  qed
  have le1: "count_list (occupied ?T) ?p \<le> 1" using d by (simp add: count_list_distinct)
  have same: "?T = t" if "\<not> holds t k" "length (occupied t) = capacity t"
    using insert_table_full [OF wf that(2,1)] .
  have none: "\<not> holds t k \<and> length (occupied t) = capacity t \<longrightarrow>
            count_list (occupied ?T) ?p = 0"
  proof
    assume a: "\<not> holds t k \<and> length (occupied t) = capacity t"
    then have "?T = t" using same by simp
    with a show "count_list (occupied ?T) ?p = 0" by (simp add: holds_def)
  qed
  have verdict: "checkPrerequisites ?D = find (\<lambda>c. \<not> Exists tr c) (checkPrerequisites_queries ?D)"
    using checkPrerequisites_queries_verdict [OF wf'] by simp
  have q: "checkPrerequisites_queries ?D = asked (Exists tr) (map getString (occupied ?T))"
    using checkPrerequisites_queries_eq [OF wf'] by (simp add: checked_keys_def)
  have strings: "(\<forall>c. Exists tr c \<longrightarrow> length c = 7) \<longrightarrow>
      distinct (checkPrerequisites_queries ?D) \<and>
      count_list (checkPrerequisites_queries ?D) k \<le> 1 \<and>
      (length k = 7 \<and> CHR 0x00 \<notin> set k \<and> (holds t k \<or> length (occupied t) < capacity t) \<and>
       checkPrerequisites ?D = None \<longrightarrow> count_list (checkPrerequisites_queries ?D) k = 1) \<and>
      (length k = 7 \<and> \<not> holds t k \<and> length (occupied t) = capacity t \<longrightarrow>
         count_list (checkPrerequisites_queries ?D) k = 0)"
  proof
    assume seven: "\<forall>c. Exists tr c \<longrightarrow> length c = 7"
    have dq: "distinct (checkPrerequisites_queries ?D)"
      using inv' seven by (intro distinct_checkPrerequisites_queries) simp_all
    have q1: "count_list (checkPrerequisites_queries ?D) k = 1"
      if k: "length k = 7" "CHR 0x00 \<notin> set k"
        and room: "holds t k \<or> length (occupied t) < capacity t"
        and ok: "checkPrerequisites ?D = None"
    proof -
      from k have ne: "k \<noteq> []" by auto
      from k ne have g: "getString ?p = k" and nz: "?p \<noteq> Prerequisite_new"
        by (simp_all add: clean_key)
      from insert_table_holds [OF wf nz room] have "?p \<in> set (occupied ?T)"
        by (simp add: holds_def)
      then have "getString ?p \<in> set (checked_keys ?T)" by (simp add: checked_keys_def)
      with g checkPrerequisites_queries_all [OF wf' ok]
      have "k \<in> set (checkPrerequisites_queries ?D)" by simp
      with dq show ?thesis by (simp add: count_list_distinct)
    qed
    have q0: "count_list (checkPrerequisites_queries ?D) k = 0"
      if k: "length k = 7" and nh: "\<not> holds t k" and full: "length (occupied t) = capacity t"
    proof -
      have "k \<notin> set (checkPrerequisites_queries ?D)"
      proof
        assume "k \<in> set (checkPrerequisites_queries ?D)"
        with set_asked [of "Exists tr" "map getString (occupied ?T)"] q
        obtain p where p: "p \<in> set (occupied ?T)" "getString p = k" by auto
        with same [OF nh full] have pt: "p \<in> set (occupied t)" by simp
        then have "valid_image p" using wf by (auto simp: set_occupied wf_table_def)
        with p(2) k have "p = k @ [CHR 0x00]" using getString_seven [of p] by simp
        with k have "p = ?p" by (simp add: load_seven)
        with pt nh show False by (simp add: holds_def)
      qed
      then show ?thesis by simp
    qed
    have ql: "count_list (checkPrerequisites_queries ?D) k \<le> 1"
      using dq by (simp add: count_list_distinct)
    from dq ql q1 q0
    show "distinct (checkPrerequisites_queries ?D) \<and>
      count_list (checkPrerequisites_queries ?D) k \<le> 1 \<and>
      (length k = 7 \<and> CHR 0x00 \<notin> set k \<and> (holds t k \<or> length (occupied t) < capacity t) \<and>
       checkPrerequisites ?D = None \<longrightarrow> count_list (checkPrerequisites_queries ?D) k = 1) \<and>
      (length k = 7 \<and> \<not> holds t k \<and> length (occupied t) = capacity t \<longrightarrow>
         count_list (checkPrerequisites_queries ?D) k = 0)" by blast
  qed
  have loaded: "(\<forall>l \<in> set lines. fst (parse l) = None) \<longrightarrow>
      distinct (checkPrerequisites_queries \<lparr>tree = build (courses_of lines), prereqTable = ?T\<rparr>)"
  proof
    assume a: "\<forall>l \<in> set lines. fst (parse l) = None"
    show "distinct (checkPrerequisites_queries \<lparr>tree = build (courses_of lines), prereqTable = ?T\<rparr>)"
      using inv' Exists_loaded_seven [OF a] by (intro distinct_checkPrerequisites_queries) simp_all
  qed
  note iter = funpow_insert_table [OF wf assms(2), of k]
  show ?thesis by (intro conjI iter d le1 one none verdict q strings loaded)
qed

theorem C6_witness:
  "((\<lambda>u. insert_table u ''CSCI100'') ^^ 3) (PrereqHashTable_new DEFAULT_PREREQUISITE_TABLE_SIZE)
     = insert_table (PrereqHashTable_new DEFAULT_PREREQUISITE_TABLE_SIZE) ''CSCI100'' \<and>
   count_list (occupied (insert_table (PrereqHashTable_new DEFAULT_PREREQUISITE_TABLE_SIZE) ''CSCI100''))
     (load Prerequisite_new ''CSCI100'') = 1 \<and>
   checkPrerequisites \<lparr>tree = store_CSCI100,
     prereqTable = insert_table (PrereqHashTable_new DEFAULT_PREREQUISITE_TABLE_SIZE) ''CSCI100''\<rparr>
     = None \<and>
   count_list (checkPrerequisites_queries \<lparr>tree = store_CSCI100,
     prereqTable = insert_table (PrereqHashTable_new DEFAULT_PREREQUISITE_TABLE_SIZE) ''CSCI100''\<rparr>)
     ''CSCI100'' = 1 \<and>
   count_list (occupied (insert_table
       (register_all (PrereqHashTable_new DEFAULT_PREREQUISITE_TABLE_SIZE) keys27) ''CSCI127''))
     (load Prerequisite_new ''CSCI127'') = 0 \<and>
   count_list (checkPrerequisites_queries \<lparr>tree = store_CSCI100,
     prereqTable = insert_table
       (register_all (PrereqHashTable_new DEFAULT_PREREQUISITE_TABLE_SIZE) keys27) ''CSCI127''\<rparr>)
     ''CSCI127'' = 0 \<and>
   distinct (checkPrerequisites_queries \<lparr>tree = build (courses_of catalog_lines),
     prereqTable = insert_table (PrereqHashTable_new DEFAULT_PREREQUISITE_TABLE_SIZE) ''CSCI100''\<rparr>)"
proof -
  let ?new = "PrereqHashTable_new DEFAULT_PREREQUISITE_TABLE_SIZE"
  let ?T = "register_all ?new keys27"
  have a: "table_inv ?new" by (simp add: table_inv_new DEFAULT_PREREQUISITE_TABLE_SIZE_def)
  have aT: "table_inv ?T" using a by (rule table_inv_register_all)
  have b: "(0::nat) < 3" by simp
  have c: "\<exists>c \<in> set (take 7 ''CSCI100''). c \<noteq> CHR 0x00" "length ''CSCI100'' = 7"
    "CHR 0x00 \<notin> set ''CSCI100''" "length ''CSCI127'' = 7" by simp_all
  have d: "length (occupied ?new) < capacity ?new" by (simp add: occupied_def table_simps)
  have e: "\<forall>c. Exists store_CSCI100 c \<longrightarrow> length c = 7" by (simp add: Exists_store_CSCI100)
  have f: "checkPrerequisites \<lparr>tree = store_CSCI100, prereqTable = insert_table ?new ''CSCI100''\<rparr>
      = None"
    by (simp add: store_CSCI100_def build_def run_simps)
  have g: "\<not> holds ?T ''CSCI127''" "length (occupied ?T) = capacity ?T"
    by (simp_all add: keys27_occupied)
  have h1: "(\<exists>c \<in> set (take 7 ''CSCI100''). c \<noteq> CHR 0x00) \<and>
      (holds ?new ''CSCI100'' \<or> length (occupied ?new) < capacity ?new)"
    by (intro conjI c(1) disjI2 d)
  have h2: "length ''CSCI100'' = 7 \<and> CHR 0x00 \<notin> set ''CSCI100'' \<and>
      (holds ?new ''CSCI100'' \<or> length (occupied ?new) < capacity ?new) \<and>
      checkPrerequisites \<lparr>tree = store_CSCI100, prereqTable = insert_table ?new ''CSCI100''\<rparr> = None"
    by (intro conjI c(2) c(3) disjI2 d f)
  have h3: "\<not> holds ?T ''CSCI127'' \<and> length (occupied ?T) = capacity ?T"
    by (intro conjI g)
  have h4: "length ''CSCI127'' = 7 \<and> \<not> holds ?T ''CSCI127'' \<and> length (occupied ?T) = capacity ?T"
    by (intro conjI c(4) g)
  have h5: "\<forall>l \<in> set catalog_lines. fst (parse l) = None"
    by (simp add: catalog_lines_def parse_simps run_simps)
  note A = C6_no_key_twice [OF a b, of "''CSCI100''" store_CSCI100 catalog_lines]
  note B = C6_no_key_twice [OF aT b, of "''CSCI127''" store_CSCI100 catalog_lines]
  note A' = A [THEN conjunct2, THEN conjunct2, THEN conjunct2]
  note B' = B [THEN conjunct2, THEN conjunct2, THEN conjunct2]
  note A'' = A' [THEN conjunct2, THEN conjunct2, THEN conjunct2, THEN conjunct2]
  note B'' = B' [THEN conjunct2, THEN conjunct2, THEN conjunct2, THEN conjunct2]
  note As = A'' [THEN conjunct1, THEN mp, OF e]
  note Bs = B'' [THEN conjunct1, THEN mp, OF e]
  show ?thesis
    by (intro conjI A [THEN conjunct1] A' [THEN conjunct1, THEN mp, OF h1] f
        As [THEN conjunct2, THEN conjunct2, THEN conjunct1, THEN mp, OF h2]
        B' [THEN conjunct2, THEN conjunct1, THEN mp, OF h3]
        Bs [THEN conjunct2, THEN conjunct2, THEN conjunct2, THEN mp, OF h4]
        A'' [THEN conjunct2, THEN mp, OF h5])
qed

section \<open>Claims about parsing and loading\<close>

text \<open>
  C7, as stated, fails: the claim has \<open>EmptyTitle\<close> exactly when the title field is
  empty. The line \<open>CS10,,\<close> has an empty title field and a key field of four
  characters; \<open>Course::init\<close> tests the key first and throws for the key.
\<close>

theorem C7_counterexample:
  "title_field ''CS10,,'' = [] \<and>
   fst (init Course_new ''CS10,,'' (PrereqHashTable_new 27)) = Some MalformedKey"
  by (simp add: title_field_def init_def getline_def Course_new_def Course_clear_def)

text \<open>
  C7, amended. \<open>Course::init\<close> on a fresh course fails with \<open>MalformedKey\<close> exactly
  when the key field does not have seven characters, and with \<open>EmptyTitle\<close> exactly when
  the key field has seven characters and the title field is empty; otherwise it
  succeeds, with the two fields as number and title. Whenever it fails, on any course,
  it leaves the course cleared (no number, no title, no prerequisites) and the table
  as it was.
\<close>

theorem C7_parse_errors:
  "(fst (init Course_new line t) = Some MalformedKey \<longleftrightarrow> length (key_field line) \<noteq> 7) \<and>
   (fst (init Course_new line t) = Some EmptyTitle \<longleftrightarrow>
      length (key_field line) = 7 \<and> title_field line = []) \<and>
   (fst (init Course_new line t) = None \<longrightarrow>
      number (fst (snd (init Course_new line t))) = key_field line \<and>
      title (fst (snd (init Course_new line t))) = title_field line) \<and>
   (fst (init c line t) \<noteq> None \<longrightarrow> init c line t = (fst (init c line t), Course_new, t))"
proof -
  have "fst (init Course_new line t) = None \<longrightarrow>
      number (fst (snd (init Course_new line t))) = key_field line \<and>
      title (fst (snd (init Course_new line t))) = title_field line"
    by (simp add: init_fresh read_prerequisites_eq)
  with init_error_iff [of line t] init_failure_clears [of c line t] show ?thesis by blast
qed

theorem C7_witness:
  "fst (init Course_new ''CSCI100,'' (PrereqHashTable_new 27)) = Some EmptyTitle \<and>
   init Course_new ''CSCI100,'' (PrereqHashTable_new 27)
     = (Some EmptyTitle, Course_new, PrereqHashTable_new 27) \<and>
   fst (init Course_new ''CSCI200,Data Structures,CSCI100'' (PrereqHashTable_new 27)) = None \<and>
   number (fst (snd (init Course_new ''CSCI200,Data Structures,CSCI100'' (PrereqHashTable_new 27))))
     = ''CSCI200''"
proof -
  have a: "length (key_field ''CSCI100,'') = 7 \<and> title_field ''CSCI100,'' = []"
    by (simp add: key_field_def title_field_def)
  have b: "key_field ''CSCI200,Data Structures,CSCI100'' = ''CSCI200''"
    by (simp add: key_field_def)
  have c: "fst (init Course_new ''CSCI200,Data Structures,CSCI100'' (PrereqHashTable_new 27)) = None"
    by (simp add: init_fresh key_field_def title_field_def)
  from C7_parse_errors [of "''CSCI100,''" "PrereqHashTable_new 27" Course_new] a
  have "fst (init Course_new ''CSCI100,'' (PrereqHashTable_new 27)) = Some EmptyTitle"
    and "init Course_new ''CSCI100,'' (PrereqHashTable_new 27)
     = (Some EmptyTitle, Course_new, PrereqHashTable_new 27)" by auto
  moreover from C7_parse_errors
    [of "''CSCI200,Data Structures,CSCI100''" "PrereqHashTable_new 27" Course_new] b c
  have "number (fst (snd (init Course_new ''CSCI200,Data Structures,CSCI100'' (PrereqHashTable_new 27))))
     = ''CSCI200''" by simp
  ultimately show ?thesis using c by simp
qed

text \<open>
  C3. The claim: after the last line the load checks every key of the reference set
  against the store, fails with the first key that has no record, and succeeds when
  all have one; it fails with an unresolved prerequisite exactly when a prerequisite
  key registered during the load is the key of no stored course. The code does not do
  this, although \<open>checkPrerequisites\<close> is documented to validate that all prerequisites
  are valid courses, and \<open>Course::init\<close> and \<open>Driver::search\<close> refuse a course number
  whose length is not seven. The second line of this catalog names the prerequisite
  \<open>CSCI1000\<close>, which is the key of no course. The table keeps its first seven
  characters, the validation pass asks the tree about \<open>CSCI100\<close> only, and the load
  succeeds with two courses, one of which requires a course that does not exist.
\<close>

theorem C3_long_prerequisite_passes:
  "\<exists>d. loadCourses Driver_new catalog_long_key = Inr (d, 2) \<and>
       ''CSCI1000'' \<in> set (registered_keys catalog_long_key) \<and>
       ''CSCI1000'' \<notin> number ` set (courses_of catalog_long_key) \<and>
       prerequisites (Search (tree d) ''CSCI200'') = [''CSCI1000''] \<and>
       \<not> Exists (tree d) ''CSCI1000'' \<and>
       checkPrerequisites_queries d = [''CSCI100''] \<and>
       checkPrerequisites d = None"
  by (simp add: catalog_long_key_def parse_simps run_simps checkPrerequisites_queries_def
      checkPrerequisites_queries_loop.simps)

text \<open>
  C5. The claim: the reference set is empty when a load begins, and no key registered
  by an earlier load is in it then. The code does not do this. The driver allocates its
  table once, in its constructor; \<open>loadCourses\<close> drains the tree at its start and
  leaves the table as the load before left it. After a first load of a catalog in which \<open>CSCI200\<close> requires
  \<open>CSCI100\<close>, the table still holds \<open>CSCI100\<close> when the second load begins. If the file
  was edited in between and now has the one line \<open>CSCI200,Data Structures\<close>, which
  registers no key at all, the second load fails for the key of the first.
\<close>

theorem C5_table_kept_between_loads:
  "\<exists>d1. loadCourses Driver_new catalog_lines = Inr (d1, 2) \<and>
        holds (prereqTable d1) ''CSCI100'' \<and>
        registered_keys catalog_edited = [] \<and>
        loadCourses d1 catalog_edited = Inl (UnresolvedPrerequisite ''CSCI100'')"
  by (simp add: catalog_lines_def catalog_edited_def parse_simps run_simps holds_def occupied_def)

text \<open>
  C8. When a load of a catalog succeeds, loading the same lines again, straight after
  it, succeeds too and leaves the same store: the second load empties the tree,
  rebuilds it from the same records, finds every key it registers already in the table,
  and its validation pass reads the same slots. The listing printed after the second
  load is the one printed after the first.
\<close>

theorem C8_reload_same_listing:
  assumes "wf_table (prereqTable d)" and "loadCourses d lines = Inr (d1, n)"
  shows "\<exists>d2. loadCourses d1 lines = Inr (d2, n) \<and> printCourses d2 = printCourses d1 \<and>
              tree d2 = build (courses_of lines) \<and> d2 = d1"
proof -
  from assms(2) have ok: "\<forall>l \<in> set lines. fst (parse l) = None"
    and d1: "d1 = \<lparr>tree = build (courses_of lines),
           prereqTable = register_all (prereqTable d) (registered_keys lines)\<rparr>"
    and n: "n = length lines" and chk: "checkPrerequisites d1 = None"
    unfolding loadCourses_Inr by blast+
  have "register_all (prereqTable d1) (registered_keys lines) = prereqTable d1"
    unfolding d1 using register_all_twice [OF assms(1)] by simp
  then have "d1 = \<lparr>tree = build (courses_of lines),
           prereqTable = register_all (prereqTable d1) (registered_keys lines)\<rparr>"
    using d1 by simp
  with ok n chk have again: "loadCourses d1 lines = Inr (d1, n)"
    by (subst loadCourses_Inr) simp
  then show ?thesis using d1 by simp
qed

theorem C8_witness:
  "wf_table (prereqTable Driver_new) \<and>
   (\<exists>d1. loadCourses Driver_new catalog_lines = Inr (d1, 2) \<and>
         loadCourses d1 catalog_lines = Inr (d1, 2) \<and>
         InOrder (tree d1) = ''CSCI100, Introduction'' @ [CHR 0x0A] @
                             ''CSCI200, Data Structures'' @ [CHR 0x0A])"
proof -
  have "\<exists>d1. loadCourses Driver_new catalog_lines = Inr (d1, 2)"
    by (simp add: catalog_lines_def run_simps)
  then obtain d1 where l: "loadCourses Driver_new catalog_lines = Inr (d1, 2)" ..
  from C8_reload_same_listing [OF wf_table_Driver_new l]
  have again: "loadCourses d1 catalog_lines = Inr (d1, 2)"
    and t: "tree d1 = build (courses_of catalog_lines)" by auto
  have "InOrder (build (courses_of catalog_lines)) =
      ''CSCI100, Introduction'' @ [CHR 0x0A] @ ''CSCI200, Data Structures'' @ [CHR 0x0A]"
    by (simp add: catalog_lines_def courses_of_def parse_def build_def InOrder_def display_def
        run_simps)
  with l again t wf_table_Driver_new show ?thesis by auto
qed

end
